theory Spec2Isabelle
  imports Main "HOL-Library.Char_ord" "HOL-Library.List_Lexorder"
begin

section \<open>Python text operations used by toon.py\<close>

text \<open>
  A Python \<open>str\<close> is modelled as a \<^typ>\<open>string\<close>: a list of characters whose codes
  are the code points 0..255, so every text of this development is a text over that
  range. The library operations of \<open>str\<close> that \<open>toon.py\<close> calls are written out for
  this range: the characters \<open>str.isspace\<close> accepts, the line boundaries of
  \<open>str.splitlines\<close>, the lower-case mapping, the identifier characters.
\<close>

abbreviation (input) dquote :: char where "dquote \<equiv> CHR 0x22"
abbreviation (input) squote :: char where "squote \<equiv> CHR 0x27"
abbreviation (input) backslash :: char where "backslash \<equiv> CHR 0x5C"
abbreviation (input) LF :: char where "LF \<equiv> CHR 0x0A"
abbreviation (input) CR :: char where "CR \<equiv> CHR 0x0D"

definition isspace :: "char \<Rightarrow> bool" where
  "isspace c = (let n = (of_char c :: nat) in
     (9 \<le> n \<and> n \<le> 13) \<or> (28 \<le> n \<and> n \<le> 32) \<or> n = 133 \<or> n = 160)"

definition lstrip :: "string \<Rightarrow> string" where
  "lstrip s = dropWhile isspace s"

definition rstrip :: "string \<Rightarrow> string" where
  "rstrip s = rev (dropWhile isspace (rev s))"

definition strip :: "string \<Rightarrow> string" where
  "strip s = rstrip (lstrip s)"

text \<open>\<open>s.strip(c)\<close> and \<open>s.rstrip(c)\<close> for a one-character argument.\<close>

definition rstrip_char :: "char \<Rightarrow> string \<Rightarrow> string" where
  "rstrip_char c s = rev (dropWhile (\<lambda>d. d = c) (rev s))"

definition strip_char :: "char \<Rightarrow> string \<Rightarrow> string" where
  "strip_char c s = rstrip_char c (dropWhile (\<lambda>d. d = c) s)"

definition startswith :: "string \<Rightarrow> string \<Rightarrow> bool" where
  "startswith s p = (take (length p) s = p)"

definition endswith :: "string \<Rightarrow> string \<Rightarrow> bool" where
  "endswith s p = (length p \<le> length s \<and> drop (length s - length p) s = p)"

definition py_lower :: "char \<Rightarrow> char" where
  "py_lower c = (let n = (of_char c :: nat) in
     if (65 \<le> n \<and> n \<le> 90) \<or> (192 \<le> n \<and> n \<le> 222 \<and> n \<noteq> 215)
     then char_of (n + 32) else c)"

definition lower :: "string \<Rightarrow> string" where
  "lower s = map py_lower s"

text \<open>\<open>sep.join(parts)\<close>.\<close>

fun join :: "string \<Rightarrow> string list \<Rightarrow> string" where
  "join sep [] = []"
| "join sep [x] = x"
| "join sep (x # y # ys) = x @ sep @ join sep (y # ys)"

text \<open>\<open>s.split(c)\<close> for a one-character separator: always at least one part.\<close>

fun split_on :: "char \<Rightarrow> string \<Rightarrow> string list" where
  "split_on c [] = [[]]"
| "split_on c (d # s) =
     (if d = c then [] # split_on c s
      else (case split_on c s of p # ps \<Rightarrow> (d # p) # ps | [] \<Rightarrow> [[d]]))"

text \<open>
  \<open>s.index(c, start)\<close>: the first position at or after \<open>start\<close> that holds \<open>c\<close>;
  \<open>None\<close> where Python raises \<open>ValueError\<close>.
\<close>

fun index_from :: "string \<Rightarrow> char \<Rightarrow> nat \<Rightarrow> nat option" where
  "index_from [] c start = None"
| "index_from (d # s) c start =
     (if start = 0 then (if d = c then Some 0 else map_option Suc (index_from s c 0))
      else map_option Suc (index_from s c (start - 1)))"

text \<open>
  \<open>str.splitlines()\<close>: a line ends at \<open>\n\<close>, \<open>\r\<close>, \<open>\r\n\<close>, \<open>\v\<close>, \<open>\f\<close>,
  \<open>\x1c\<close>, \<open>\x1d\<close>, \<open>\x1e\<close> or \<open>\x85\<close>; the boundaries are dropped and no empty
  last line is returned.
\<close>

definition is_linebreak :: "char \<Rightarrow> bool" where
  "is_linebreak c = (let n = (of_char c :: nat) in
     (10 \<le> n \<and> n \<le> 13) \<or> (28 \<le> n \<and> n \<le> 30) \<or> n = 133)"

fun splitlines_from :: "string \<Rightarrow> string \<Rightarrow> string list" where
  "splitlines_from cur [] = (if cur = [] then [] else [cur])"
| "splitlines_from cur [c] =
     (if is_linebreak c then [cur] else [cur @ [c]])"
| "splitlines_from cur (c # d # s) =
     (if c = CR \<and> d = LF then cur # splitlines_from [] s
      else if is_linebreak c then cur # splitlines_from [] (d # s)
      else splitlines_from (cur @ [c]) (d # s))"

definition splitlines :: "string \<Rightarrow> string list" where
  "splitlines s = splitlines_from [] s"

text \<open>
  \<open>str.isidentifier()\<close>: a first character of \<open>XID_Start\<close> or an underscore, then
  characters of \<open>XID_Continue\<close>.
\<close>

definition xid_start :: "char \<Rightarrow> bool" where
  "xid_start c = (let n = (of_char c :: nat) in
     (65 \<le> n \<and> n \<le> 90) \<or> (97 \<le> n \<and> n \<le> 122) \<or> n = 95 \<or>
     n = 170 \<or> n = 181 \<or> n = 186 \<or>
     (192 \<le> n \<and> n \<le> 214) \<or> (216 \<le> n \<and> n \<le> 246) \<or> 248 \<le> n)"

definition xid_continue :: "char \<Rightarrow> bool" where
  "xid_continue c = (let n = (of_char c :: nat) in
     xid_start c \<or> (48 \<le> n \<and> n \<le> 57) \<or> n = 183)"

definition isidentifier :: "string \<Rightarrow> bool" where
  "isidentifier s = (case s of [] \<Rightarrow> False | c # r \<Rightarrow> xid_start c \<and> list_all xid_continue r)"

subsection \<open>Integers as text\<close>

text \<open>\<open>str(i)\<close> for an \<open>int\<close>: the decimal digits, after a minus sign when negative.\<close>

definition digit_char :: "nat \<Rightarrow> char" where
  "digit_char d = ''0123456789'' ! d"

function str_nat :: "nat \<Rightarrow> string" where
  "str_nat n = (if n < 10 then [digit_char n] else str_nat (n div 10) @ [digit_char (n mod 10)])"
  by pat_completeness auto
termination
  by (relation "measure (\<lambda>n. n)") auto

declare str_nat.simps [simp del]

definition str_int :: "int \<Rightarrow> string" where
  "str_int i = (if i < 0 then CHR ''-'' # str_nat (nat (- i)) else str_nat (nat i))"

text \<open>
  \<open>int(s)\<close> for a text: surrounding whitespace is dropped, then an optional sign and
  decimal digits, where single underscores may stand between digits. \<open>None\<close> where
  Python raises \<open>ValueError\<close>. The module applies \<open>int()\<close> only to a token that
  \<open>str.strip()\<close> has stripped already, so the whitespace that \<open>int()\<close> itself would
  skip (for an ASCII text a smaller set than that of \<open>str.strip()\<close>, without the
  separators 0x1C to 0x1F) plays no role. The interpreter's bound on the number of
  digits that \<open>int()\<close> and \<open>str()\<close> convert (4300 by default) is not modelled.
\<close>

definition digit_val :: "char \<Rightarrow> nat option" where
  "digit_val c = (let n = (of_char c :: nat) in
     if 48 \<le> n \<and> n \<le> 57 then Some (n - 48) else None)"

fun more_digits :: "nat \<Rightarrow> string \<Rightarrow> nat option" where
  "more_digits acc [] = Some acc"
| "more_digits acc [c] =
     (case digit_val c of Some v \<Rightarrow> Some (10 * acc + v) | None \<Rightarrow> None)"
| "more_digits acc (c # d # s) =
     (if c = CHR ''_'' then
        (case digit_val d of Some v \<Rightarrow> more_digits (10 * acc + v) s | None \<Rightarrow> None)
      else (case digit_val c of Some v \<Rightarrow> more_digits (10 * acc + v) (d # s) | None \<Rightarrow> None))"

definition py_nat :: "string \<Rightarrow> nat option" where
  "py_nat s = (case s of [] \<Rightarrow> None
     | c # r \<Rightarrow> (case digit_val c of Some v \<Rightarrow> more_digits v r | None \<Rightarrow> None))"

definition py_int :: "string \<Rightarrow> int option" where
  "py_int s = (case strip s of [] \<Rightarrow> None
     | c # r \<Rightarrow>
        if c = CHR ''+'' then map_option int (py_nat r)
        else if c = CHR ''-'' then map_option (\<lambda>n. - int n) (py_nat r)
        else map_option int (py_nat (c # r)))"

subsection \<open>JSON string literals\<close>

text \<open>
  \<open>json.dumps(s, ensure_ascii=False)\<close> for a text: the text between double quotes,
  with the quote, the backslash and the control characters below \<open>0x20\<close> escaped.
\<close>

definition hex_digit :: "nat \<Rightarrow> char" where
  "hex_digit d = ''0123456789abcdef'' ! d"

definition json_escape :: "char \<Rightarrow> string" where
  "json_escape c =
     (if c = dquote then [backslash, dquote]
      else if c = backslash then [backslash, backslash]
      else if c = LF then [backslash, CHR ''n'']
      else if c = CR then [backslash, CHR ''r'']
      else if c = CHR 0x09 then [backslash, CHR ''t'']
      else if c = CHR 0x08 then [backslash, CHR ''b'']
      else if c = CHR 0x0C then [backslash, CHR ''f'']
      else if (of_char c :: nat) < 32 then
        [backslash, CHR ''u'', CHR ''0'', CHR ''0'',
         hex_digit ((of_char c :: nat) div 16), hex_digit ((of_char c :: nat) mod 16)]
      else [c])"

definition json_dumps :: "string \<Rightarrow> string" where
  "json_dumps s = dquote # concat (map json_escape s) @ [dquote]"

text \<open>
  \<open>json.loads(tok)\<close> for a text that starts with a quote character, which is how
  \<open>_parse_primitive_token\<close> calls it: the decoded text of a JSON string literal, and
  \<open>None\<close> where \<open>json.loads\<close> raises (a literal that does not close, a raw control
  character, an unknown escape, text after the closing quote, a single-quoted text).
  An escape \<open>\uXXXX\<close> above \<open>00FF\<close> stands for a character that the texts of this
  development do not hold; \<open>json_loads\<close> has no result for such a literal either, so
  tokens with such an escape are outside the model. \<open>json_dumps\<close> writes no such escape.
\<close>

definition hex_val :: "char \<Rightarrow> nat option" where
  "hex_val c = (let n = (of_char c :: nat) in
     if 48 \<le> n \<and> n \<le> 57 then Some (n - 48)
     else if 97 \<le> n \<and> n \<le> 102 then Some (n - 87)
     else if 65 \<le> n \<and> n \<le> 70 then Some (n - 55)
     else None)"

definition hex4 :: "string \<Rightarrow> nat option" where
  "hex4 s = (case s of
       [a, b, c, d] \<Rightarrow>
         (case (hex_val a, hex_val b, hex_val c, hex_val d) of
            (Some x, Some y, Some z, Some w) \<Rightarrow> Some (((x * 16 + y) * 16 + z) * 16 + w)
          | _ \<Rightarrow> None)
     | _ \<Rightarrow> None)"

definition unescape :: "char \<Rightarrow> char option" where
  "unescape e =
     (if e = dquote then Some dquote
      else if e = backslash then Some backslash
      else if e = CHR ''/'' then Some CHR ''/''
      else if e = CHR ''b'' then Some (CHR 0x08)
      else if e = CHR ''f'' then Some (CHR 0x0C)
      else if e = CHR ''n'' then Some LF
      else if e = CHR ''r'' then Some CR
      else if e = CHR ''t'' then Some (CHR 0x09)
      else None)"

fun scanstring :: "string \<Rightarrow> string \<Rightarrow> (string \<times> string) option" where
  "scanstring acc [] = None"
| "scanstring acc (c # s) =
     (if c = dquote then Some (acc, s)
      else if c = backslash then
        (case s of
           [] \<Rightarrow> None
         | e # s' \<Rightarrow>
             if e = CHR ''u'' then
               (case hex4 (take 4 s') of
                  Some n \<Rightarrow> if n < 256 then scanstring (acc @ [char_of n]) (drop 4 s') else None
                | None \<Rightarrow> None)
             else
               (case unescape e of
                  Some d \<Rightarrow> scanstring (acc @ [d]) s'
                | None \<Rightarrow> None))
      else if (of_char c :: nat) < 32 then None
      else scanstring (acc @ [c]) s)"

definition json_ws :: "char \<Rightarrow> bool" where
  "json_ws c = (c = CHR '' '' \<or> c = CHR 0x09 \<or> c = LF \<or> c = CR)"

definition json_loads :: "string \<Rightarrow> string option" where
  "json_loads tok = (case tok of
       [] \<Rightarrow> None
     | c # r \<Rightarrow>
         if c = dquote then
           (case scanstring [] r of
              Some (t, rest) \<Rightarrow> if dropWhile json_ws rest = [] then Some t else None
            | None \<Rightarrow> None)
         else None)"

section \<open>Values\<close>

text \<open>
  The values \<open>dumps\<close> takes and \<open>loads\<close> returns: the primitives \<open>None\<close>, \<open>bool\<close>,
  \<open>int\<close>, \<open>float\<close> and \<open>str\<close>, a \<open>dict\<close> with text keys in insertion order, and a
  \<open>list\<close> (a tuple is serialised as the list of its items). A Python \<open>dict\<close> holds a
  key once; the association list of a \<open>PyDict\<close> is meant with distinct keys.

  Floating point is not computed here. The float type is a parameter \<open>'f\<close>, and the
  two library functions on floats that \<open>toon.py\<close> calls come with it in a record:
  \<open>str(x)\<close> for a float and \<open>float(tok)\<close> for a text (\<open>None\<close> where Python raises
  \<open>ValueError\<close>). Every function below that reaches one of them takes the record.
\<close>

datatype 'f prim = PNone | PBool bool | PInt int | PFloat 'f | PStr string

datatype 'f pyobj =
    Prim "'f prim"
  | PyDict "(string \<times> 'f pyobj) list"
  | PyList "'f pyobj list"

record 'f host =
  str_float :: "'f \<Rightarrow> string"
  float_of :: "string \<Rightarrow> 'f option"

section \<open>Scalar codec\<close>

text \<open>\<open>_to_toon_primitive\<close> (toon.py, lines 36-56).\<close>

definition needs_quote :: "string \<Rightarrow> bool" where
  "needs_quote s =
     ((\<exists>ch \<in> set [CHR '','', LF, CR]. ch \<in> set s)
      \<or> isspace (hd s)
      \<or> isspace (last s)
      \<or> (startswith s [dquote] \<or> startswith s [squote])
      \<or> lower s \<in> set [''null'', ''true'', ''false''])"

definition to_toon_primitive :: "'f host \<Rightarrow> 'f prim \<Rightarrow> string" where
  "to_toon_primitive h x =
     (case x of
        PNone \<Rightarrow> ''null''
      | PBool b \<Rightarrow> (if b then ''true'' else ''false'')
      | PInt i \<Rightarrow> str_int i
      | PFloat f \<Rightarrow> str_float h f
      | PStr s \<Rightarrow>
          if s = [] then [dquote, dquote]
          else if needs_quote s then json_dumps s
          else s)"

text \<open>\<open>_parse_primitive_token\<close> (toon.py, lines 231-258).\<close>

definition parse_primitive_token :: "'f host \<Rightarrow> string \<Rightarrow> 'f prim" where
  "parse_primitive_token h tok0 =
     (let tok = strip tok0 in
      if tok = [] then PStr []
      else if tok = ''null'' then PNone
      else if tok = ''true'' then PBool True
      else if tok = ''false'' then PBool False
      else if (startswith tok [dquote] \<and> endswith tok [dquote])
            \<or> (startswith tok [squote] \<and> endswith tok [squote]) then
        (case json_loads tok of
           Some s \<Rightarrow> PStr s
         | None \<Rightarrow> PStr (butlast (tl tok)))
      else
        (case py_int tok of
           Some i \<Rightarrow> PInt i
         | None \<Rightarrow>
             (case float_of h tok of
                Some f \<Rightarrow> PFloat f
              | None \<Rightarrow> PStr tok)))"

section \<open>Serialization\<close>

definition INDENT_STR :: string where
  "INDENT_STR = ''  ''"

definition pad_of :: "nat \<Rightarrow> string" where
  "pad_of indent = concat (replicate indent INDENT_STR)"

definition is_primitive :: "'f pyobj \<Rightarrow> bool" where
  "is_primitive x = (case x of Prim _ \<Rightarrow> True | _ \<Rightarrow> False)"

definition prim_token :: "'f host \<Rightarrow> 'f pyobj \<Rightarrow> string" where
  "prim_token h x = (case x of Prim p \<Rightarrow> to_toon_primitive h p | _ \<Rightarrow> [])"

definition escape_header_key :: "string \<Rightarrow> string" where
  "escape_header_key k = (if isidentifier k then k else json_dumps k)"

definition is_dict :: "'f pyobj \<Rightarrow> bool" where
  "is_dict x = (case x of PyDict _ \<Rightarrow> True | _ \<Rightarrow> False)"

definition dict_keys :: "'f pyobj \<Rightarrow> string list" where
  "dict_keys x = (case x of PyDict kvs \<Rightarrow> map fst kvs | _ \<Rightarrow> [])"

definition dict_values :: "'f pyobj \<Rightarrow> 'f pyobj list" where
  "dict_values x = (case x of PyDict kvs \<Rightarrow> map snd kvs | _ \<Rightarrow> [])"

definition dict_get :: "'f pyobj \<Rightarrow> string \<Rightarrow> 'f pyobj" where
  "dict_get d k = (case d of
       PyDict kvs \<Rightarrow> (case map_of kvs k of Some v \<Rightarrow> v | None \<Rightarrow> Prim PNone)
     | _ \<Rightarrow> Prim PNone)"

definition all_dicts_uniform :: "'f pyobj list \<Rightarrow> bool \<times> string list option" where
  "all_dicts_uniform list_of_dicts =
     (if list_of_dicts = [] then (False, None)
      else if \<not> list_all is_dict list_of_dicts then (False, None)
      else
        (let sets = map (\<lambda>d. set (dict_keys d)) list_of_dicts;
             first_set = hd sets
         in if list_all (\<lambda>s. s = first_set) sets then
              (let first_keys = dict_keys (hd list_of_dicts)
               in if list_all (\<lambda>d. dict_keys d = first_keys) list_of_dicts
                  then (True, Some first_keys)
                  else (True, Some (sorted_list_of_set first_set)))
            else (False, None)))"

definition truthy :: "string option \<Rightarrow> bool" where
  "truthy name = (case name of None \<Rightarrow> False | Some n \<Rightarrow> n \<noteq> [])"

definition name_of :: "string option \<Rightarrow> string" where
  "name_of name = (case name of None \<Rightarrow> [] | Some n \<Rightarrow> n)"

definition join_lines :: "string list \<Rightarrow> string" where
  "join_lines lines = join [LF] lines @ (if lines \<noteq> [] then [LF] else [])"

fun dumps :: "'f host \<Rightarrow> string option \<Rightarrow> nat \<Rightarrow> 'f pyobj \<Rightarrow> string" where
  "dumps h name indent (Prim x) =
     (let pad = pad_of indent; val = to_toon_primitive h x
      in if truthy name then pad @ name_of name @ '': '' @ val @ [LF]
         else pad @ val @ [LF])"
| "dumps h name indent (PyDict obj) =
     (let pad = pad_of indent;
          lines0 = (if truthy name then [pad @ name_of name @ '':''] else []);
          child_pad = (if truthy name then pad_of (indent + 1) else pad)
      in if obj = [] then
           (if truthy name then pad @ name_of name @ '':'' @ [LF] @ child_pad @ ''{}'' @ [LF]
            else pad @ ''{}'' @ [LF])
         else
           join_lines (lines0 @ concat (map (\<lambda>(k, v).
              let key = escape_header_key k
              in (case v of
                    Prim p \<Rightarrow> [child_pad @ key @ '': '' @ to_toon_primitive h p]
                  | _ \<Rightarrow> [child_pad @ key @ '':'',
                          rstrip_char LF (dumps h None (indent + 1) v)])) obj)))"
| "dumps h name indent (PyList lst) =
     (let pad = pad_of indent; n = length lst
      in if n = 0 then
           (if truthy name then pad @ name_of name @ ''[0]:'' @ [LF] else pad @ ''[]'' @ [LF])
         else
           (case all_dicts_uniform lst of (uniform, keys_opt) \<Rightarrow>
              let ks = (case keys_opt of None \<Rightarrow> [] | Some ks \<Rightarrow> ks)
              in if uniform \<and> ks \<noteq> [] \<and> list_all (\<lambda>d. list_all is_primitive (dict_values d)) lst then
                   (let keys_escaped = join '','' (map escape_header_key ks);
                        header = (if truthy name
                                  then pad @ name_of name @ ''['' @ str_nat n @ '']{'' @ keys_escaped @ ''}:''
                                  else pad @ ''['' @ str_nat n @ '']{'' @ keys_escaped @ ''}:'')
                    in join [LF] (header # map (\<lambda>d. pad @ INDENT_STR @
                          join '','' (map (\<lambda>k. prim_token h (dict_get d k)) ks)) lst) @ [LF])
                 else if list_all is_primitive lst then
                   (let vals = join '','' (map (prim_token h) lst)
                    in if truthy name then pad @ name_of name @ ''['' @ str_nat n @ '']: '' @ vals @ [LF]
                       else pad @ ''- '' @ join '', '' (map (prim_token h) lst) @ [LF])
                 else
                   (let lines0 = (if truthy name then [pad @ name_of name @ ''['' @ str_nat n @ '']:''] else []);
                        item_indent_str = (if truthy name then pad @ INDENT_STR else pad);
                        nested_indent = (if truthy name then indent + 2 else indent + 1)
                    in join [LF] (lines0 @ concat (map (\<lambda>item.
                          (case item of
                             Prim p \<Rightarrow> [item_indent_str @ ''- '' @ to_toon_primitive h p]
                           | _ \<Rightarrow> [item_indent_str @ ''-'',
                                   rstrip_char LF (dumps h None nested_indent item)])) lst)) @ [LF])))"


section \<open>Parsing\<close>

function count_leading_indent :: "string \<Rightarrow> nat" where
  "count_leading_indent s =
     (if startswith s INDENT_STR then Suc (count_leading_indent (drop (length INDENT_STR) s)) else 0)"
  by pat_completeness auto
termination
proof (relation "measure length")
  fix s :: string
  assume "startswith s INDENT_STR"
  then have "s \<noteq> []" by (auto simp: startswith_def INDENT_STR_def)
  then show "(drop (length INDENT_STR) s, s) \<in> measure length"
    by (simp add: INDENT_STR_def)
qed simp

declare count_leading_indent.simps [simp del]

fun split_csv_loop :: "string list \<Rightarrow> string \<Rightarrow> bool \<Rightarrow> char option \<Rightarrow> string \<Rightarrow> string list" where
  "split_csv_loop parts cur in_q qchar [] =
     (if strip cur \<noteq> [] then parts @ [strip cur] else parts)"
| "split_csv_loop parts cur in_q qchar (ch # s) =
     (if ch = dquote \<or> ch = squote then
        (if \<not> in_q then split_csv_loop parts (cur @ [ch]) True (Some ch) s
         else if qchar = Some ch then split_csv_loop parts (cur @ [ch]) False qchar s
         else split_csv_loop parts (cur @ [ch]) in_q qchar s)
      else if ch = CHR '','' \<and> \<not> in_q then split_csv_loop (parts @ [strip cur]) [] in_q qchar s
      else split_csv_loop parts (cur @ [ch]) in_q qchar s)"

definition split_csv_like :: "string \<Rightarrow> string list" where
  "split_csv_like s = split_csv_loop [] [] False None s"

fun find_colon :: "nat \<Rightarrow> bool \<Rightarrow> char option \<Rightarrow> string \<Rightarrow> nat option" where
  "find_colon i in_q qch [] = None"
| "find_colon i in_q qch (ch # s) =
     (case (if ch = dquote \<or> ch = squote then
              (if \<not> in_q then (True, Some ch)
               else if qch = Some ch then (False, qch)
               else (in_q, qch))
            else (in_q, qch)) of
        (in_q', qch') \<Rightarrow>
          if ch = CHR '':'' \<and> \<not> in_q' then Some i
          else find_colon (Suc i) in_q' qch' s)"

definition table_keys :: "string \<Rightarrow> string list" where
  "table_keys key_part =
     (case index_from key_part CHR ''['' 0 of
        None \<Rightarrow> []
      | Some br_start \<Rightarrow>
     (case index_from key_part CHR '']'' br_start of
        None \<Rightarrow> []
      | Some br_end \<Rightarrow>
     (case index_from key_part CHR ''{'' br_end of
        None \<Rightarrow> []
      | Some keys_start \<Rightarrow>
     (case index_from key_part CHR ''}'' keys_start of
        None \<Rightarrow> []
      | Some keys_end \<Rightarrow>
          (let keys_str = take (keys_end - (keys_start + 1)) (drop (keys_start + 1) key_part)
           in map (\<lambda>k. strip_char squote (strip_char dquote (strip k)))
                (filter (\<lambda>k. strip k \<noteq> []) (split_on CHR '','' keys_str)))))))"

definition before_bracket :: "string \<Rightarrow> string" where
  "before_bracket key_part = takeWhile (\<lambda>c. c \<noteq> CHR ''['') key_part"

definition after_bracket :: "string \<Rightarrow> string" where
  "after_bracket key_part = tl (dropWhile (\<lambda>c. c \<noteq> CHR ''['') key_part)"

definition list_header :: "string \<Rightarrow> string \<times> bool" where
  "list_header key_part =
     (if CHR ''['' \<in> set key_part \<and> endswith key_part '']'' then
        (if endswith (after_bracket key_part) '']''
         then (strip (before_bracket key_part), True)
         else (key_part, False))
      else (key_part, False))"

fun dict_set :: "(string \<times> 'v) list \<Rightarrow> string \<Rightarrow> 'v \<Rightarrow> (string \<times> 'v) list" where
  "dict_set [] k v = [(k, v)]"
| "dict_set ((k', v') # kvs) k v =
     (if k' = k then (k, v) # kvs else (k', v') # dict_set kvs k v)"

type_synonym line = "nat \<times> string"

fun table_rows :: "'f host \<Rightarrow> string list \<Rightarrow> nat \<Rightarrow> line list \<Rightarrow> 'f pyobj list \<times> line list" where
  "table_rows h ks e [] = ([], [])"
| "table_rows h ks e ((indent, row_content) # rest) =
     (if indent = e + 1 then
        (let parts = split_csv_like (strip row_content);
             row = fold (\<lambda>(k, vtok) r. dict_set r k (Prim (parse_primitive_token h vtok)))
                     (zip ks parts) []
         in (case table_rows h ks e rest of (rows, rest') \<Rightarrow> (PyDict row # rows, rest')))
      else ([], (indent, row_content) # rest))"

definition finish :: "(string \<times> 'f pyobj) list \<Rightarrow> 'f pyobj list option \<Rightarrow> 'f pyobj" where
  "finish result arr_mode =
     (case arr_mode of
        Some arr \<Rightarrow> PyList arr
      | None \<Rightarrow>
          (case result of
             [(k, v)] \<Rightarrow> if k = ''_table'' then v else PyDict result
           | _ \<Rightarrow> PyDict result))"

function parse_block ::
  "'f host \<Rightarrow> nat \<Rightarrow> (string \<times> 'f pyobj) list \<Rightarrow> 'f pyobj list option \<Rightarrow> line list
     \<Rightarrow> 'f pyobj \<times> line list" where
  "parse_block h expected_indent result arr_mode [] = (finish result arr_mode, [])"
| "parse_block h expected_indent result arr_mode ((indent, content) # rest) =
     (if indent < expected_indent then (finish result arr_mode, (indent, content) # rest)
      else if indent > expected_indent then (finish result arr_mode, (indent, content) # rest)
      else if strip content = ''[]'' then
        (if arr_mode = None \<and> result = [] then (PyList [], rest)
         else parse_block h expected_indent result arr_mode rest)
      else if strip content = ''{}'' then
        (if arr_mode = None \<and> result = [] then (PyDict [], rest)
         else parse_block h expected_indent result arr_mode rest)
      else if startswith content ''- '' \<or> content = ''-'' then
        (let arr = (case arr_mode of None \<Rightarrow> [] | Some a \<Rightarrow> a)
         in if content = ''-'' then
              (if rest \<noteq> [] \<and> fst (hd rest) > indent then
                 (case parse_block h (indent + 1) [] None rest of
                    (item, rest') \<Rightarrow>
                      parse_block h expected_indent result (Some (arr @ [item])) rest')
               else parse_block h expected_indent result (Some (arr @ [Prim PNone])) rest)
            else
              (let val_tok = strip (drop 2 content)
               in if CHR '','' \<in> set val_tok
                     \<and> \<not> (startswith val_tok [dquote] \<or> startswith val_tok [squote]) then
                    parse_block h expected_indent result
                      (Some (arr @ map (\<lambda>p. Prim (parse_primitive_token h p))
                                     (split_csv_like val_tok))) rest
                  else
                    parse_block h expected_indent result
                      (Some (arr @ [Prim (parse_primitive_token h val_tok)])) rest))
      else
        (case find_colon 0 False None content of
           None \<Rightarrow>
             (let val = Prim (parse_primitive_token h content)
              in if arr_mode = None \<and> result = [] then (val, rest)
                 else (case arr_mode of
                         Some arr \<Rightarrow> parse_block h expected_indent result (Some (arr @ [val])) rest
                       | None \<Rightarrow> parse_block h expected_indent result arr_mode rest))
         | Some colon_pos \<Rightarrow>
             (let key_part = strip (take colon_pos content);
                  val_part = strip (drop (colon_pos + 1) content)
              in if val_part = [] then
                   (if CHR ''['' \<in> set key_part \<and> CHR '']'' \<in> set key_part
                       \<and> CHR ''{'' \<in> set key_part \<and> CHR ''}'' \<in> set key_part then
                      (let name_section = strip (before_bracket key_part);
                           ks = table_keys key_part
                       in (case table_rows h ks expected_indent rest of
                             (rows, rest') \<Rightarrow>
                               parse_block h expected_indent
                                 (dict_set result
                                    (if name_section = [] then ''_table'' else name_section)
                                    (PyList rows))
                                 arr_mode rest'))
                    else
                      (case list_header key_part of
                         (real_key, is_list_header) \<Rightarrow>
                           (case parse_block h (expected_indent + 1) [] None rest of
                              (nested, rest') \<Rightarrow>
                                parse_block h expected_indent
                                  (dict_set result real_key
                                     (if is_list_header \<and> nested = PyDict [] then PyList []
                                      else nested))
                                  arr_mode rest')))
                 else if CHR ''['' \<in> set key_part \<and> CHR '']'' \<in> set key_part then
                   parse_block h expected_indent
                     (dict_set result (strip (before_bracket key_part))
                        (PyList (map (\<lambda>p. Prim (parse_primitive_token h p))
                                   (filter (\<lambda>p. p \<noteq> []) (split_csv_like val_part)))))
                     arr_mode rest
                 else
                   parse_block h expected_indent
                     (dict_set result key_part (Prim (parse_primitive_token h val_part)))
                     arr_mode rest)))"
  by pat_completeness auto

lemma table_rows_length: "length (snd (table_rows h ks e ls)) \<le> length ls"
  by (induction ls) (auto split: prod.splits)



lemma parse_block_length:
  "parse_block_dom (h, e, result, arr_mode, ls) \<Longrightarrow>
   length (snd (parse_block h e result arr_mode ls)) \<le> length ls"
proof (induction h e result arr_mode ls rule: parse_block.pinduct)
  case (1 h e result arr_mode)
  then show ?case by (simp add: parse_block.psimps)
next
  case (2 h e result arr_mode indent content rest)
  note dom = 2(1)
  note IH = 2(2-)
  note step = parse_block.psimps(2) [OF dom]
  show ?case
  proof (cases "indent < e \<or> e < indent")
    case True
    then show ?thesis by (subst step) auto
  next
    case lvl0: False
    then have ie: "indent = e" by simp
    have lvl: "\<not> indent < e" "\<not> e < indent" using ie by simp_all
    show ?thesis
    proof (cases "strip content = ''[]''")
      case True
      with lvl IH(1) [OF lvl] show ?thesis by (subst step) auto
    next
      case nl: False
      show ?thesis
      proof (cases "strip content = ''{}''")
        case True
        with lvl nl IH(2) [OF lvl nl] show ?thesis by (subst step) auto
      next
        case nd: False
        show ?thesis
        proof (cases "startswith content ''- '' \<or> content = ''-''")
          case item: True
          show ?thesis
          proof (cases "content = ''-''")
            case dash: True
            show ?thesis
            proof (cases "rest \<noteq> [] \<and> indent < fst (hd rest)")
              case deeper: True
              obtain it rest' where inner: "parse_block h (indent + 1) [] None rest = (it, rest')"
                by (cases "parse_block h (indent + 1) [] None rest")
              have a: "length rest' \<le> length rest"
                using IH(3) [OF lvl nl nd item refl dash deeper] inner by simp
              have b: "length (snd (parse_block h e result
                          (Some ((case arr_mode of None \<Rightarrow> [] | Some a \<Rightarrow> a) @ [it])) rest')) \<le> length rest'"
                using IH(4) [OF lvl nl nd item refl dash deeper inner [symmetric]] by simp
              show ?thesis using lvl nl nd item dash deeper inner a b
                by (subst step) (auto simp: Let_def)
            next
              case False
              then show ?thesis
                using IH(5) [OF lvl nl nd item refl dash False] lvl nl nd item dash
                by (subst step) (auto simp: Let_def)
            qed
          next
            case ndash: False
            show ?thesis
              using IH(6) [OF lvl nl nd item refl ndash refl] IH(7) [OF lvl nl nd item refl ndash refl]
                lvl nl nd item ndash
              by (subst step) (auto simp: Let_def)
          qed
        next
          case nitem: False
          show ?thesis
          proof (cases "find_colon 0 False None content")
            case None
            show ?thesis
              using IH(8) [OF lvl nl nd nitem None refl] IH(9) [OF lvl nl nd nitem None refl]
                lvl nl nd nitem None
              by (subst step) (auto simp: Let_def split: option.splits)
          next
            case (Some cp)
            let ?kp = "strip (take cp content)"
            let ?vp = "strip (drop (cp + 1) content)"
            show ?thesis
            proof (cases "?vp = []")
              case empty: True
              show ?thesis
              proof (cases "CHR ''['' \<in> set ?kp \<and> CHR '']'' \<in> set ?kp
                       \<and> CHR ''{'' \<in> set ?kp \<and> CHR ''}'' \<in> set ?kp")
                case tbl: True
                obtain rows rest' where tr: "table_rows h (table_keys ?kp) e rest = (rows, rest')"
                  by (cases "table_rows h (table_keys ?kp) e rest")
                have a: "length rest' \<le> length rest"
                  using table_rows_length [of h "table_keys ?kp" e rest] tr by simp
                note b = IH(10) [OF lvl nl nd nitem Some refl refl empty tbl refl refl tr [symmetric]]
                show ?thesis using lvl nl nd nitem Some empty tbl tr a b
                  by (subst step) (auto simp: Let_def)
              next
                case ntbl: False
                obtain real_key is_lh where lh: "list_header ?kp = (real_key, is_lh)"
                  by (cases "list_header ?kp")
                obtain nested rest' where inner: "parse_block h (e + 1) [] None rest = (nested, rest')"
                  by (cases "parse_block h (e + 1) [] None rest")
                note a = IH(11) [OF lvl nl nd nitem Some refl refl empty ntbl lh [symmetric]]
                note b = IH(12) [OF lvl nl nd nitem Some refl refl empty ntbl lh [symmetric] inner [symmetric]]
                show ?thesis using lvl nl nd nitem Some empty ntbl lh inner a b
                  by (subst step) (auto simp: Let_def)
              qed
            next
              case nonempty: False
              show ?thesis
                using IH(13) [OF lvl nl nd nitem Some refl refl nonempty]
                  IH(14) [OF lvl nl nd nitem Some refl refl nonempty]
                  lvl nl nd nitem Some nonempty
                by (subst step) (auto simp: Let_def)
            qed
          qed
        qed
      qed
    qed
  qed
qed

lemma parse_block_shorter:
  "(v, ls') = parse_block h e result arr_mode ls \<Longrightarrow>
   parse_block_dom (h, e, result, arr_mode, ls) \<Longrightarrow> length ls' < Suc (length ls)"
  using parse_block_length [of h e result arr_mode ls]
  by (metis le_imp_less_Suc snd_conv)

lemma table_rows_shorter:
  "(rows, ls') = table_rows h ks e ls \<Longrightarrow> length ls' < Suc (length ls)"
  using table_rows_length [of h ks e ls]
  by (metis le_imp_less_Suc snd_conv)

termination parse_block
  by (relation "measure (\<lambda>(h, e, result, arr_mode, ls). length ls)")
     (auto intro: parse_block_shorter table_rows_shorter)

text \<open>\<open>loads\<close> (toon.py, lines 303-501).\<close>

definition preprocess :: "string \<Rightarrow> line list" where
  "preprocess toon_str =
     map (\<lambda>ln. let indent = count_leading_indent ln
               in (indent, drop (indent * length INDENT_STR) ln))
       (map (rstrip_char LF) (filter (\<lambda>ln. strip ln \<noteq> []) (splitlines toon_str)))"

definition loads :: "'f host \<Rightarrow> string \<Rightarrow> 'f pyobj" where
  "loads h toon_str = fst (parse_block h 0 [] None (preprocess toon_str))"

section \<open>Evaluating the definitions\<close>

text \<open>
  \<open>count_leading_indent\<close> by cases on the first two characters, and the definitions
  that the simplifier unfolds to run the serializer and the parser on a given input.
\<close>

lemma count_leading_indent_Nil: "count_leading_indent [] = 0"
  by (simp add: count_leading_indent.simps startswith_def INDENT_STR_def)

lemma count_leading_indent_single: "count_leading_indent [c] = 0"
  by (simp add: count_leading_indent.simps startswith_def INDENT_STR_def)

lemma count_leading_indent_Cons:
  "count_leading_indent (a # b # s) =
     (if a = CHR '' '' \<and> b = CHR '' '' then Suc (count_leading_indent s) else 0)"
  by (subst count_leading_indent.simps) (simp add: startswith_def INDENT_STR_def)

lemmas count_leading_indent_eval =
  count_leading_indent_Nil count_leading_indent_single count_leading_indent_Cons

lemmas text_eval =
  isspace_def lstrip_def rstrip_def strip_def rstrip_char_def strip_char_def startswith_def
  endswith_def py_lower_def lower_def is_linebreak_def splitlines_def xid_start_def
  xid_continue_def isidentifier_def digit_char_def str_int_def digit_val_def py_nat_def
  py_int_def

lemmas dumps_eval =
  INDENT_STR_def pad_of_def is_primitive_def prim_token_def escape_header_key_def is_dict_def
  dict_keys_def dict_values_def dict_get_def all_dicts_uniform_def truthy_def name_of_def
  join_lines_def needs_quote_def to_toon_primitive_def str_nat.simps

lemmas loads_eval =
  preprocess_def loads_def count_leading_indent_eval split_csv_like_def table_keys_def
  before_bracket_def after_bracket_def list_header_def finish_def parse_primitive_token_def

text \<open>
  Closed instances below are stated at \<open>plain_host\<close>, a host without float values: its
  \<open>float()\<close> reads no text, as Python's does on every text that is no float literal.
  The instances hold no float and read no float literal; each general statement is
  proved for every host.
\<close>

definition plain_host :: "unit host" where
  "plain_host = \<lparr>str_float = (\<lambda>_. ''nan''), float_of = (\<lambda>_. None)\<rparr>"

section \<open>JSON string literals are read back\<close>

lemma json_escape_nonempty: "json_escape c \<noteq> []"
  by (simp add: json_escape_def)

lemma length_json_escape: "1 \<le> length (json_escape c)"
  by (simp add: json_escape_def)

lemma length_concat_escape: "length s \<le> length (concat (map json_escape s))"
proof (induction s)
  case Nil
  show ?case by simp
next
  case (Cons c s)
  have "1 \<le> length (json_escape c)" by (rule length_json_escape)
  with Cons show ?case by simp
qed

lemma json_dumps_neq: "json_dumps s \<noteq> s"
proof
  assume "json_dumps s = s"
  then have "length (json_dumps s) = length s" by simp
  moreover have "length (json_dumps s) = length (concat (map json_escape s)) + 2"
    by (simp add: json_dumps_def)
  ultimately show False using length_concat_escape [of s] by simp
qed

lemma json_dumps_Nil: "json_dumps [] = [dquote, dquote]"
  by (simp add: json_dumps_def)

lemma hex_val_hex_digit: "d < 16 \<Longrightarrow> hex_val (hex_digit d) = Some d"
proof -
  assume "d < 16"
  then have "d = 0 \<or> d = 1 \<or> d = 2 \<or> d = 3 \<or> d = 4 \<or> d = 5 \<or> d = 6 \<or> d = 7 \<or> d = 8
    \<or> d = 9 \<or> d = 10 \<or> d = 11 \<or> d = 12 \<or> d = 13 \<or> d = 14 \<or> d = 15"
    by presburger
  then show ?thesis
    by (elim disjE) (simp_all add: hex_val_def hex_digit_def)
qed

lemma hex4_escape:
  assumes "(of_char c :: nat) < 32"
  shows "hex4 [CHR ''0'', CHR ''0'', hex_digit ((of_char c :: nat) div 16), hex_digit ((of_char c :: nat) mod 16)]
         = Some (of_char c)"
proof -
  have a: "(of_char c :: nat) div 16 < 16" using assms by simp
  have b: "(of_char c :: nat) mod 16 < 16" by simp
  have z: "hex_val CHR ''0'' = Some 0" by (simp add: hex_val_def)
  show ?thesis
    by (simp add: hex4_def z hex_val_hex_digit [OF a] hex_val_hex_digit [OF b])
qed

lemma scanstring_escape:
  "scanstring acc (json_escape c @ rest) = scanstring (acc @ [c]) rest"
proof -
  consider (dq) "c = dquote" | (bs) "c = backslash" | (lf) "c = LF" | (cr) "c = CR"
    | (tab) "c = CHR 0x09" | (b) "c = CHR 0x08" | (f) "c = CHR 0x0C"
    | (ctl) "c \<notin> {dquote, backslash, LF, CR, CHR 0x09, CHR 0x08, CHR 0x0C}" "(of_char c :: nat) < 32"
    | (plain) "c \<notin> {dquote, backslash, LF, CR, CHR 0x09, CHR 0x08, CHR 0x0C}" "\<not> (of_char c :: nat) < 32"
    by blast
  then show ?thesis
  proof cases
    case ctl
    then have e: "json_escape c = [backslash, CHR ''u'', CHR ''0'', CHR ''0'',
         hex_digit ((of_char c :: nat) div 16), hex_digit ((of_char c :: nat) mod 16)]"
      by (simp add: json_escape_def)
    show ?thesis using ctl(2)
      by (simp add: e hex4_escape)
  next
    case plain
    then show ?thesis by (simp add: json_escape_def)
  qed (simp_all add: json_escape_def unescape_def)
qed

lemma scanstring_dumps:
  "scanstring acc (concat (map json_escape s) @ dquote # rest) = Some (acc @ s, rest)"
proof (induction s arbitrary: acc)
  case Nil
  show ?case by simp
next
  case (Cons c s)
  show ?case using Cons [of "acc @ [c]"] by (simp add: scanstring_escape)
qed

lemma json_loads_dumps: "json_loads (json_dumps s) = Some s"
  using scanstring_dumps [of "[]" s "[]"] by (simp add: json_loads_def json_dumps_def)

lemma strip_id:
  assumes "s \<noteq> []" "\<not> isspace (hd s)" "\<not> isspace (last s)"
  shows "strip s = s"
proof -
  have a: "dropWhile isspace s = s" using assms(1,2) by (cases s) simp_all
  have "rev s \<noteq> []" "\<not> isspace (hd (rev s))" using assms(1,3) by (simp_all add: hd_rev)
  then have b: "dropWhile isspace (rev s) = rev s" by (cases "rev s") simp_all
  show ?thesis by (simp add: strip_def lstrip_def rstrip_def a b)
qed

lemma json_dumps_shape:
  "json_dumps s \<noteq> []" "hd (json_dumps s) = dquote" "last (json_dumps s) = dquote"
  by (simp_all add: json_dumps_def)

lemma strip_json_dumps: "strip (json_dumps s) = json_dumps s"
  by (rule strip_id) (simp_all add: json_dumps_shape isspace_def)

lemma parse_json_dumps: "parse_primitive_token h (json_dumps s) = PStr s"
proof -
  have q: "startswith (json_dumps s) [dquote]" "endswith (json_dumps s) [dquote]"
    by (simp_all add: json_dumps_def startswith_def endswith_def)
  have n: "json_dumps s \<noteq> []" "json_dumps s \<noteq> ''null''" "json_dumps s \<noteq> ''true''"
    "json_dumps s \<noteq> ''false''"
    by (simp_all add: json_dumps_def)
  show ?thesis
    by (simp add: parse_primitive_token_def strip_json_dumps q n json_loads_dumps)
qed

lemma lower_Nil_iff: "lower s = [] \<longleftrightarrow> s = []"
  by (simp add: lower_def)

section \<open>The quoting rule of the scalar encoder\<close>

text \<open>
  The quoting condition in the words of the specification (section 4.1): the text is
  empty; contains a comma, a newline or a carriage return; starts or ends with
  whitespace; starts with a quote character; or is \<open>null\<close>, \<open>true\<close> or \<open>false\<close> up
  to case.
\<close>

definition quoting_condition :: "string \<Rightarrow> bool" where
  "quoting_condition s =
     (s = []
      \<or> CHR '','' \<in> set s \<or> LF \<in> set s \<or> CR \<in> set s
      \<or> (s \<noteq> [] \<and> isspace (hd s))
      \<or> (s \<noteq> [] \<and> isspace (last s))
      \<or> (s \<noteq> [] \<and> (hd s = dquote \<or> hd s = squote))
      \<or> lower s = ''null'' \<or> lower s = ''true'' \<or> lower s = ''false'')"

lemma needs_quote_iff:
  "s \<noteq> [] \<Longrightarrow> needs_quote s = quoting_condition s"
  by (cases s) (auto simp: needs_quote_def quoting_condition_def startswith_def)

text \<open>
  Claim C4. For every text, \<open>_to_toon_primitive\<close> returns the JSON string literal of
  the text exactly when the quoting condition holds, and the text itself exactly when
  it does not (the literal is never the text itself).
\<close>

theorem C4_quoting_rule:
  "(to_toon_primitive h (PStr s) = json_dumps s \<longleftrightarrow> quoting_condition s)
   \<and> (to_toon_primitive h (PStr s) = s \<longleftrightarrow> \<not> quoting_condition s)"
proof (cases "s = []")
  case True
  then show ?thesis
    by (simp add: to_toon_primitive_def quoting_condition_def json_dumps_Nil)
next
  case False
  then show ?thesis
    using json_dumps_neq [of s] needs_quote_iff [of s]
    by (auto simp: to_toon_primitive_def)
qed

text \<open>
  Claim C5. A text that contains a comma or a newline, starts or ends with whitespace,
  or is \<open>null\<close>, \<open>true\<close> or \<open>false\<close> up to case is encoded as its JSON string literal,
  and \<open>_parse_primitive_token\<close> reads that token back as the same text.
\<close>

theorem C5_quoted_text_roundtrip:
  assumes "CHR '','' \<in> set s \<or> LF \<in> set s
           \<or> (s \<noteq> [] \<and> (isspace (hd s) \<or> isspace (last s)))
           \<or> lower s = ''null'' \<or> lower s = ''true'' \<or> lower s = ''false''"
  shows "to_toon_primitive h (PStr s) = json_dumps s
         \<and> parse_primitive_token h (json_dumps s) = PStr s"
proof -
  from assms have ne: "s \<noteq> []" by (auto simp: lower_def)
  from assms ne have "needs_quote s" by (auto simp: needs_quote_def)
  with ne have "to_toon_primitive h (PStr s) = json_dumps s"
    by (simp add: to_toon_primitive_def)
  then show ?thesis by (simp add: parse_json_dumps)
qed

theorem C5_quoted_text_roundtrip_witness:
  "lower ''NULL'' = ''null''
   \<and> to_toon_primitive plain_host (PStr ''NULL'') = [dquote, CHR ''N'', CHR ''U'', CHR ''L'', CHR ''L'', dquote]
   \<and> parse_primitive_token plain_host [dquote, CHR ''N'', CHR ''U'', CHR ''L'', CHR ''L'', dquote] = PStr ''NULL''"
proof -
  have l: "lower ''NULL'' = ''null''"
    by (simp add: lower_def py_lower_def char_of_def bit_Suc_0_iff)
  have j: "json_dumps ''NULL'' = [dquote, CHR ''N'', CHR ''U'', CHR ''L'', CHR ''L'', dquote]"
    by (simp add: json_dumps_def json_escape_def)
  from C5_quoted_text_roundtrip [of "''NULL''" plain_host] l j show ?thesis by simp
qed

section \<open>Sequences and tables under a key\<close>

text \<open>The rows of the table scenario of the specification (section 8, scenario 3).\<close>

definition tbl_rows :: "'f pyobj" where
  "tbl_rows = PyList [PyDict [(''id'', Prim (PInt 1)), (''val'', Prim (PStr ''A''))],
                      PyDict [(''id'', Prim (PInt 2)), (''val'', Prim (PStr ''B''))]]"

lemma all_dicts_uniform_prims:
  assumes "lst \<noteq> []" "list_all is_primitive lst"
  shows "all_dicts_uniform lst = (False, None)"
proof -
  obtain x xs where l: "lst = x # xs" using assms(1) by (cases lst) auto
  with assms(2) have "is_primitive x" by simp
  then have "\<not> is_dict x" by (cases x) (simp_all add: is_primitive_def is_dict_def)
  with l show ?thesis by (simp add: all_dicts_uniform_def)
qed

lemma dumps_nums_mapping:
  "dumps h None 0 (PyDict [(''nums'', PyList [Prim (PInt 1), Prim (PInt 2), Prim (PInt 3)])])
     = ''nums:\<newline>  - 1, 2, 3\<newline>''"
  by (simp add: text_eval dumps_eval)

lemma dumps_tbl_mapping:
  "dumps h None 0 (PyDict [(''tbl'', tbl_rows)])
     = ''tbl:\<newline>  [2]{id,val}:\<newline>    1,A\<newline>    2,B\<newline>''"
  by (simp add: tbl_rows_def text_eval dumps_eval)

text \<open>
  Claim C2, as amended. The keyed single-line form \<open>key[N]: v1,v2,...\<close> is what
  \<open>dumps\<close> writes for a non-empty sequence of primitives that is passed together with a
  name (\<open>dumps(lst, name=key)\<close>). The branch for a \<open>dict\<close> passes no name down: it
  writes the line \<open>key:\<close> and the unkeyed form of the value one level deeper, so for
  the mapping \<open>{"nums": [1, 2, 3]}\<close> the text is \<open>nums:\<close>, then \<open>- 1, 2, 3\<close>
  indented once.
\<close>

theorem C2_keyed_sequence_line:
  assumes "lst \<noteq> []" and "list_all is_primitive lst" and "name \<noteq> []"
  shows "dumps h (Some name) indent (PyList lst)
         = pad_of indent @ name @ ''['' @ str_nat (length lst) @ '']: ''
           @ join '','' (map (prim_token h) lst) @ [LF]"
  using assms by (simp add: all_dicts_uniform_prims truthy_def name_of_def)

theorem C2_keyed_sequence_line_witness:
  "[Prim (PInt 1), Prim (PInt 2), Prim (PInt 3)] \<noteq> ([] :: unit pyobj list)
   \<and> list_all is_primitive [Prim (PInt 1), Prim (PInt 2), Prim (PInt 3) :: unit pyobj]
   \<and> ''nums'' \<noteq> []
   \<and> dumps plain_host (Some ''nums'') 0 (PyList [Prim (PInt 1), Prim (PInt 2), Prim (PInt 3)])
       = ''nums[3]: 1,2,3\<newline>''"
proof -
  have a: "list_all is_primitive [Prim (PInt 1), Prim (PInt 2), Prim (PInt 3) :: unit pyobj]"
    by (simp add: is_primitive_def)
  from C2_keyed_sequence_line [of "[Prim (PInt 1), Prim (PInt 2), Prim (PInt 3)]" "''nums''" plain_host 0] a
  show ?thesis by (simp add: text_eval dumps_eval)
qed

theorem C2_mapping_counterexample:
  "dumps plain_host None 0 (PyDict [(''nums'', PyList [Prim (PInt 1), Prim (PInt 2), Prim (PInt 3)])])
     = ''nums:\<newline>  - 1, 2, 3\<newline>''
   \<and> dumps plain_host None 0 (PyDict [(''nums'', PyList [Prim (PInt 1), Prim (PInt 2), Prim (PInt 3)])])
     \<noteq> ''nums[3]: 1,2,3\<newline>''"
  unfolding dumps_nums_mapping by simp

section \<open>Text that reads as a number\<close>

definition is_number :: "'f prim \<Rightarrow> bool" where
  "is_number x = (case x of PInt _ \<Rightarrow> True | PFloat _ \<Rightarrow> True | _ \<Rightarrow> False)"

lemma lower_keywords: "lower ''null'' = ''null''" "lower ''true'' = ''true''" "lower ''false'' = ''false''"
  by (simp_all add: lower_def py_lower_def)

text \<open>
  Claim C1 at a failing input. The text \<open>"5"\<close> meets none of the quoting conditions,
  is written as the bare token \<open>5\<close>, and \<open>loads\<close> returns the integer 5: the round
  trip of this text value does not return it.
\<close>

theorem C1_numeric_text_not_restored: "loads h (dumps h None 0 (Prim (PStr ''5''))) = Prim (PInt 5)"
  by (simp add: text_eval dumps_eval loads_eval)

text \<open>
  Claim C9. A non-empty text that \<open>int()\<close> or \<open>float()\<close> reads and that meets none
  of the quoting conditions is written as it is, and \<open>_parse_primitive_token\<close> reads
  the token as a number, not as text.
\<close>

theorem C9_numeric_text_read_as_number:
  assumes "s \<noteq> []" and "\<not> quoting_condition s"
    and "py_int s \<noteq> None \<or> float_of h s \<noteq> None"
  shows "to_toon_primitive h (PStr s) = s \<and> is_number (parse_primitive_token h s)"
proof -
  from assms(1,2) have nq: "\<not> needs_quote s" by (simp add: needs_quote_iff)
  with assms(1) have enc: "to_toon_primitive h (PStr s) = s"
    by (simp add: to_toon_primitive_def)
  from assms(1,2) have sp: "\<not> isspace (hd s)" "\<not> isspace (last s)"
    by (auto simp: quoting_condition_def)
  have st: "strip s = s" by (rule strip_id [OF assms(1) sp])
  from assms(2) have kw: "s \<noteq> ''null''" "s \<noteq> ''true''" "s \<noteq> ''false''"
    using lower_keywords by (auto simp: quoting_condition_def)
  from assms(1,2) have q: "\<not> startswith s [dquote]" "\<not> startswith s [squote]"
    by (cases s; auto simp: quoting_condition_def startswith_def)+
  have "is_number (parse_primitive_token h s)"
    using assms(1,3) kw q
    by (auto simp: parse_primitive_token_def st is_number_def split: option.splits)
  with enc show ?thesis by simp
qed

theorem C9_numeric_text_read_as_number_witness:
  "''5'' \<noteq> [] \<and> \<not> quoting_condition ''5'' \<and> py_int ''5'' = Some 5
   \<and> to_toon_primitive plain_host (PStr ''5'') = ''5''
   \<and> parse_primitive_token plain_host ''5'' = PInt 5"
proof -
  have a: "\<not> quoting_condition ''5''"
    by (simp add: quoting_condition_def isspace_def lower_def py_lower_def)
  have b: "py_int ''5'' = Some 5" by (simp add: text_eval)
  have c: "parse_primitive_token plain_host ''5'' = PInt 5"
    by (simp add: parse_primitive_token_def text_eval)
  from C9_numeric_text_read_as_number [of "''5''" plain_host] a b c show ?thesis by simp
qed

section \<open>Blank input\<close>

lemma preprocess_blank:
  assumes "\<forall>ln \<in> set (splitlines s). strip ln = []"
  shows "preprocess s = []"
proof -
  from assms have "filter (\<lambda>ln. strip ln \<noteq> []) (splitlines s) = []"
    by (simp add: filter_empty_conv)
  then show ?thesis by (simp add: preprocess_def)
qed

text \<open>
  Claim C10. When every line of the input is empty after \<open>strip()\<close> (so also for the
  empty input), \<open>loads\<close> returns the empty mapping.
\<close>

theorem C10_blank_input_is_empty_mapping:
  assumes "\<forall>ln \<in> set (splitlines s). strip ln = []"
  shows "loads h s = PyDict []"
  using preprocess_blank [OF assms] by (simp add: loads_def finish_def)

theorem C10_blank_input_is_empty_mapping_witness:
  "list_all (\<lambda>ln. strip ln = []) (splitlines ''  \<newline>\<newline>   '')
   \<and> loads plain_host ''  \<newline>\<newline>   '' = PyDict []
   \<and> loads plain_host [] = PyDict []"
proof -
  have a: "\<forall>ln \<in> set (splitlines ''  \<newline>\<newline>   ''). strip ln = []"
    by (simp add: text_eval)
  have b: "\<forall>ln \<in> set (splitlines []). strip ln = []"
    by (simp add: text_eval)
  from C10_blank_input_is_empty_mapping [OF a, of plain_host]
    C10_blank_input_is_empty_mapping [OF b, of plain_host] a
  show ?thesis by (simp add: list_all_iff)
qed

section \<open>The table detector\<close>

lemma all_dicts_uniform_False:
  "lst = [] \<or> (\<exists>x \<in> set lst. \<not> is_dict x) \<Longrightarrow> all_dicts_uniform lst = (False, None)"
proof -
  assume "lst = [] \<or> (\<exists>x \<in> set lst. \<not> is_dict x)"
  then have "lst = [] \<or> \<not> list_all is_dict lst" unfolding list_all_iff by blast
  then show ?thesis unfolding all_dicts_uniform_def by (cases "lst = []") simp_all
qed

lemma all_eq_hd:
  assumes "lst \<noteq> []"
  shows "(\<forall>x \<in> set lst. f x = f (hd lst)) \<longleftrightarrow> (\<forall>x \<in> set lst. \<forall>y \<in> set lst. f x = f y)"
proof
  assume "\<forall>x \<in> set lst. f x = f (hd lst)"
  then show "\<forall>x \<in> set lst. \<forall>y \<in> set lst. f x = f y" by metis
next
  assume "\<forall>x \<in> set lst. \<forall>y \<in> set lst. f x = f y"
  moreover have "hd lst \<in> set lst" using assms by simp
  ultimately show "\<forall>x \<in> set lst. f x = f (hd lst)" by blast
qed

lemma list_all_map_eq:
  "list_all (\<lambda>s. s = S) (map g lst) \<longleftrightarrow> (\<forall>x \<in> set lst. g x = S)"
  by (induction lst) simp_all

lemma same_key_sets_hd:
  assumes "lst \<noteq> []"
  shows "list_all (\<lambda>s. s = hd (map (\<lambda>d. set (dict_keys d)) lst)) (map (\<lambda>d. set (dict_keys d)) lst)
         \<longleftrightarrow> (\<forall>x \<in> set lst. \<forall>y \<in> set lst. set (dict_keys x) = set (dict_keys y))"
proof -
  have m: "hd (map (\<lambda>d. set (dict_keys d)) lst) = set (dict_keys (hd lst))"
    using assms by (simp add: hd_map)
  show ?thesis
    unfolding m list_all_map_eq by (rule all_eq_hd [OF assms])
qed

lemma same_key_order_hd:
  assumes "lst \<noteq> []"
  shows "list_all (\<lambda>d. dict_keys d = dict_keys (hd lst)) lst
         \<longleftrightarrow> (\<forall>x \<in> set lst. \<forall>y \<in> set lst. dict_keys x = dict_keys y)"
proof -
  have "list_all (\<lambda>d. dict_keys d = dict_keys (hd lst)) lst
        \<longleftrightarrow> (\<forall>x \<in> set lst. dict_keys x = dict_keys (hd lst))"
    by (simp only: list_all_iff)
  then show ?thesis using all_eq_hd [OF assms, of dict_keys] by (simp only:)
qed

lemma all_dicts_uniform_dicts:
  assumes ne: "lst \<noteq> []" and d: "list_all is_dict lst"
  shows "all_dicts_uniform lst =
         (if \<forall>x \<in> set lst. \<forall>y \<in> set lst. set (dict_keys x) = set (dict_keys y)
          then (True, Some (if \<forall>x \<in> set lst. \<forall>y \<in> set lst. dict_keys x = dict_keys y
                            then dict_keys (hd lst)
                            else sorted_list_of_set (set (dict_keys (hd lst)))))
          else (False, None))"
proof -
  have m: "hd (map (\<lambda>d. set (dict_keys d)) lst) = set (dict_keys (hd lst))"
    using ne by (simp add: hd_map)
  have "all_dicts_uniform lst =
        (if list_all (\<lambda>s. s = hd (map (\<lambda>d. set (dict_keys d)) lst)) (map (\<lambda>d. set (dict_keys d)) lst)
         then (if list_all (\<lambda>d. dict_keys d = dict_keys (hd lst)) lst
               then (True, Some (dict_keys (hd lst)))
               else (True, Some (sorted_list_of_set (hd (map (\<lambda>d. set (dict_keys d)) lst)))))
         else (False, None))"
    unfolding all_dicts_uniform_def Let_def using ne d by (simp only: if_False not_True_eq_False simp_thms)
  also have "\<dots> =
        (if \<forall>x \<in> set lst. \<forall>y \<in> set lst. set (dict_keys x) = set (dict_keys y)
         then (if \<forall>x \<in> set lst. \<forall>y \<in> set lst. dict_keys x = dict_keys y
               then (True, Some (dict_keys (hd lst)))
               else (True, Some (sorted_list_of_set (set (dict_keys (hd lst))))))
         else (False, None))"
    by (simp only: same_key_sets_hd [OF ne] same_key_sets_hd [OF ne, unfolded m] same_key_order_hd [OF ne] m)
  also have "\<dots> =
         (if \<forall>x \<in> set lst. \<forall>y \<in> set lst. set (dict_keys x) = set (dict_keys y)
          then (True, Some (if \<forall>x \<in> set lst. \<forall>y \<in> set lst. dict_keys x = dict_keys y
                            then dict_keys (hd lst)
                            else sorted_list_of_set (set (dict_keys (hd lst)))))
          else (False, None))"
    by (simp only: if_distrib [of "\<lambda>t. (True, Some t)", symmetric])
  finally show ?thesis .
qed

lemma all_dicts_uniform_fst:
  "fst (all_dicts_uniform lst) \<longleftrightarrow>
     lst \<noteq> [] \<and> (\<forall>x \<in> set lst. is_dict x)
     \<and> (\<forall>x \<in> set lst. \<forall>y \<in> set lst. set (dict_keys x) = set (dict_keys y))"
proof (cases "lst = [] \<or> (\<exists>x \<in> set lst. \<not> is_dict x)")
  case True
  have "\<not> fst (all_dicts_uniform lst)"
    by (simp only: all_dicts_uniform_False [OF True] fst_conv simp_thms)
  moreover have "\<not> (lst \<noteq> [] \<and> (\<forall>x \<in> set lst. is_dict x))" using True by blast
  ultimately show ?thesis by blast
next
  case False
  then have ne: "lst \<noteq> []" and d: "\<forall>x \<in> set lst. is_dict x" by blast+
  from d have d': "list_all is_dict lst" by (simp only: list_all_iff)
  show ?thesis
  proof (cases "\<forall>x \<in> set lst. \<forall>y \<in> set lst. set (dict_keys x) = set (dict_keys y)")
    case True
    have "fst (all_dicts_uniform lst)"
      unfolding all_dicts_uniform_dicts [OF ne d'] if_P [OF True] by simp
    with ne d True show ?thesis by blast
  next
    case False
    have "\<not> fst (all_dicts_uniform lst)"
      unfolding all_dicts_uniform_dicts [OF ne d'] if_not_P [OF False] by simp
    with False show ?thesis by blast
  qed
qed

lemma all_dicts_uniform_snd:
  assumes "fst (all_dicts_uniform lst)"
  shows "snd (all_dicts_uniform lst) =
         Some (if \<forall>x \<in> set lst. \<forall>y \<in> set lst. dict_keys x = dict_keys y
               then dict_keys (hd lst)
               else sorted_list_of_set (set (dict_keys (hd lst))))"
proof -
  from assms have ne: "lst \<noteq> []" and d: "\<forall>x \<in> set lst. is_dict x"
    and ks: "\<forall>x \<in> set lst. \<forall>y \<in> set lst. set (dict_keys x) = set (dict_keys y)"
    unfolding all_dicts_uniform_fst by blast+
  from d have d': "list_all is_dict lst" by (simp only: list_all_iff)
  show ?thesis
    unfolding all_dicts_uniform_dicts [OF ne d'] if_P [OF ks] by (simp only: snd_conv)
qed

lemma all_dicts_uniform_not:
  assumes "\<not> fst (all_dicts_uniform lst)"
  shows "snd (all_dicts_uniform lst) = None"
proof (cases "lst = [] \<or> (\<exists>x \<in> set lst. \<not> is_dict x)")
  case True
  show ?thesis by (simp only: all_dicts_uniform_False [OF True] snd_conv)
next
  case False
  then have ne: "lst \<noteq> []" and d: "\<forall>x \<in> set lst. is_dict x" by blast+
  from d have d': "list_all is_dict lst" by (simp only: list_all_iff)
  have "\<not> (\<forall>x \<in> set lst. \<forall>y \<in> set lst. set (dict_keys x) = set (dict_keys y))"
    using assms ne d unfolding all_dicts_uniform_fst by blast
  then show ?thesis
    unfolding all_dicts_uniform_dicts [OF ne d'] by (simp only: if_False snd_conv)
qed

definition rows_same_order :: "unit pyobj list" where
  "rows_same_order = [PyDict [(''id'', Prim (PInt 1)), (''val'', Prim (PStr ''A''))],
                      PyDict [(''id'', Prim (PInt 2)), (''val'', Prim (PStr ''B''))]]"

definition rows_mixed_order :: "unit pyobj list" where
  "rows_mixed_order = [PyDict [(''id'', Prim (PInt 1)), (''val'', Prim (PStr ''A''))],
                       PyDict [(''val'', Prim (PStr ''B'')), (''id'', Prim (PInt 2))]]"

lemma dict_keys_PyDict: "dict_keys (PyDict kvs) = map fst kvs"
  by (simp add: dict_keys_def)

lemma is_dict_PyDict: "is_dict (PyDict kvs)"
  by (simp add: is_dict_def)

lemma id_le_val: "sorted [''id'', ''val'' :: string]" "distinct [''id'', ''val'' :: string]"
  by (simp_all add: less_eq_char_def less_char_def)

text \<open>
  Claim C6. \<open>_all_dicts_uniform\<close> returns not-uniform (and no key order) for the empty
  sequence and for a sequence with an element that is no \<open>dict\<close>; it returns uniform
  exactly when the sequence is non-empty, all elements are \<open>dict\<close>s and all have the
  same key set; and in the uniform case the key order is the common key list when all
  elements list their keys in the same order, and otherwise the key set as a sorted
  list without repetitions (texts ordered lexicographically by character code).
\<close>

theorem C6_table_detector:
  "(lst = [] \<or> (\<exists>x \<in> set lst. \<not> is_dict x) \<longrightarrow> all_dicts_uniform lst = (False, None))
   \<and> (fst (all_dicts_uniform lst) \<longleftrightarrow>
        lst \<noteq> [] \<and> (\<forall>x \<in> set lst. is_dict x)
        \<and> (\<forall>x \<in> set lst. \<forall>y \<in> set lst. set (dict_keys x) = set (dict_keys y)))
   \<and> (\<not> fst (all_dicts_uniform lst) \<longrightarrow> snd (all_dicts_uniform lst) = None)
   \<and> (fst (all_dicts_uniform lst) \<longrightarrow>
        (\<exists>ks. snd (all_dicts_uniform lst) = Some ks \<and>
           (if \<forall>x \<in> set lst. \<forall>y \<in> set lst. dict_keys x = dict_keys y
            then \<forall>x \<in> set lst. ks = dict_keys x
            else sorted ks \<and> distinct ks \<and> (\<forall>x \<in> set lst. set ks = set (dict_keys x)))))"
proof (intro conjI impI)
  assume "lst = [] \<or> (\<exists>x \<in> set lst. \<not> is_dict x)"
  then show "all_dicts_uniform lst = (False, None)" by (rule all_dicts_uniform_False)
next
  show "fst (all_dicts_uniform lst) \<longleftrightarrow>
        lst \<noteq> [] \<and> (\<forall>x \<in> set lst. is_dict x)
        \<and> (\<forall>x \<in> set lst. \<forall>y \<in> set lst. set (dict_keys x) = set (dict_keys y))"
    by (rule all_dicts_uniform_fst)
next
  assume "\<not> fst (all_dicts_uniform lst)"
  then show "snd (all_dicts_uniform lst) = None" by (rule all_dicts_uniform_not)
next
  assume u: "fst (all_dicts_uniform lst)"
  then have ne: "lst \<noteq> []"
    and ks: "\<forall>x \<in> set lst. \<forall>y \<in> set lst. set (dict_keys x) = set (dict_keys y)"
    unfolding all_dicts_uniform_fst by blast+
  have h: "hd lst \<in> set lst" using ne by simp
  let ?same = "\<forall>x \<in> set lst. \<forall>y \<in> set lst. dict_keys x = dict_keys y"
  show "\<exists>ks. snd (all_dicts_uniform lst) = Some ks \<and>
           (if ?same then \<forall>x \<in> set lst. ks = dict_keys x
            else sorted ks \<and> distinct ks \<and> (\<forall>x \<in> set lst. set ks = set (dict_keys x)))"
  proof (cases ?same)
    case True
    then have a: "\<forall>x \<in> set lst. dict_keys (hd lst) = dict_keys x" using h by blast
    have "snd (all_dicts_uniform lst) = Some (dict_keys (hd lst))"
      unfolding all_dicts_uniform_snd [OF u] if_P [OF True] ..
    with a show ?thesis unfolding if_P [OF True] by blast
  next
    case False
    let ?ks = "sorted_list_of_set (set (dict_keys (hd lst)))"
    have s: "set ?ks = set (dict_keys (hd lst))" by simp
    have a: "\<forall>x \<in> set lst. set ?ks = set (dict_keys x)"
      unfolding s using ks h by blast
    have b: "sorted ?ks" "distinct ?ks" by simp_all
    have "snd (all_dicts_uniform lst) = Some ?ks"
      unfolding all_dicts_uniform_snd [OF u] if_not_P [OF False] ..
    with a b show ?thesis unfolding if_not_P [OF False] by blast
  qed
qed

theorem C6_table_detector_witness:
  "all_dicts_uniform ([] :: unit pyobj list) = (False, None)
   \<and> fst (all_dicts_uniform rows_same_order)
   \<and> snd (all_dicts_uniform rows_same_order) = Some [''id'', ''val'']
   \<and> fst (all_dicts_uniform rows_mixed_order)
   \<and> snd (all_dicts_uniform rows_mixed_order) = Some [''id'', ''val'']"
proof -
  note T0 = C6_table_detector [of "[] :: unit pyobj list"]
  note T1 = C6_table_detector [of rows_same_order]
  note T2 = C6_table_detector [of rows_mixed_order]
  have a: "all_dicts_uniform ([] :: unit pyobj list) = (False, None)"
    using T0 [THEN conjunct1] by simp
  have d1: "rows_same_order \<noteq> [] \<and> (\<forall>x \<in> set rows_same_order. is_dict x)
      \<and> (\<forall>x \<in> set rows_same_order. \<forall>y \<in> set rows_same_order.
            set (dict_keys x) = set (dict_keys y))"
    by (simp add: rows_same_order_def is_dict_PyDict dict_keys_PyDict)
  have o1: "\<forall>x \<in> set rows_same_order. \<forall>y \<in> set rows_same_order. dict_keys x = dict_keys y"
    by (simp add: rows_same_order_def dict_keys_PyDict)
  have u1: "fst (all_dicts_uniform rows_same_order)"
    by (rule T1 [THEN conjunct2, THEN conjunct1, THEN iffD2, OF d1])
  from T1 [THEN conjunct2, THEN conjunct2, THEN conjunct2, rule_format, OF u1]
  obtain ks1 where k1: "snd (all_dicts_uniform rows_same_order) = Some ks1"
      "\<forall>x \<in> set rows_same_order. ks1 = dict_keys x"
    unfolding if_P [OF o1] by blast
  from k1(2) have "ks1 = [''id'', ''val'']"
    by (simp add: rows_same_order_def dict_keys_PyDict)
  with k1(1) have s1: "snd (all_dicts_uniform rows_same_order) = Some [''id'', ''val'']"
    by simp
  have d2: "rows_mixed_order \<noteq> [] \<and> (\<forall>x \<in> set rows_mixed_order. is_dict x)
      \<and> (\<forall>x \<in> set rows_mixed_order. \<forall>y \<in> set rows_mixed_order.
            set (dict_keys x) = set (dict_keys y))"
    by (simp add: rows_mixed_order_def is_dict_PyDict dict_keys_PyDict insert_commute)
  have o2: "\<not> (\<forall>x \<in> set rows_mixed_order. \<forall>y \<in> set rows_mixed_order.
                 dict_keys x = dict_keys y)"
    by (simp add: rows_mixed_order_def dict_keys_PyDict)
  have u2: "fst (all_dicts_uniform rows_mixed_order)"
    by (rule T2 [THEN conjunct2, THEN conjunct1, THEN iffD2, OF d2])
  from T2 [THEN conjunct2, THEN conjunct2, THEN conjunct2, rule_format, OF u2]
  obtain ks2 where k2: "snd (all_dicts_uniform rows_mixed_order) = Some ks2"
      "sorted ks2" "distinct ks2" "\<forall>x \<in> set rows_mixed_order. set ks2 = set (dict_keys x)"
    unfolding if_not_P [OF o2] by blast
  from k2(4) have "set ks2 = set [''id'', ''val'']"
    by (simp add: rows_mixed_order_def dict_keys_PyDict)
  with k2(2,3) id_le_val have "ks2 = [''id'', ''val'']"
    by (intro sorted_distinct_set_unique)
  with k2(1) have s2: "snd (all_dicts_uniform rows_mixed_order) = Some [''id'', ''val'']"
    by simp
  from a u1 s1 u2 s2 show ?thesis by (simp only: simp_thms)
qed

section \<open>Nested mappings and empty containers\<close>

text \<open>
  A plain key is an identifier, so \<open>_escape_header_key\<close> writes it as it is, other
  than \<open>_table\<close>, the name under which \<open>parse_block\<close> keeps an anonymous table and
  which it unwraps when it is the only entry.
\<close>

definition plain_key :: "string \<Rightarrow> bool" where
  "plain_key k = (isidentifier k \<and> k \<noteq> ''_table'')"

lemma xid_start_continue: "xid_start c \<Longrightarrow> xid_continue c"
  by (simp add: xid_continue_def)

lemma xid_continue_not_space: "xid_continue c \<Longrightarrow> \<not> isspace c"
  by (auto simp: xid_continue_def xid_start_def isspace_def Let_def)

lemma xid_continue_not_linebreak: "xid_continue c \<Longrightarrow> \<not> is_linebreak c"
  by (auto simp: xid_continue_def xid_start_def is_linebreak_def Let_def)

lemma xid_continue_not_special:
  assumes "xid_continue c"
  shows "c \<noteq> dquote" "c \<noteq> squote" "c \<noteq> CHR '':''" "c \<noteq> CHR ''[''" "c \<noteq> CHR '']''"
    "c \<noteq> CHR ''{''" "c \<noteq> CHR ''}''" "c \<noteq> CHR ''-''" "c \<noteq> CHR '' ''" "c \<noteq> LF" "c \<noteq> CHR '',''"
  using assms by (auto simp: xid_continue_def xid_start_def Let_def)

lemma isidentifier_chars:
  assumes "isidentifier k"
  shows "k \<noteq> []" "xid_continue (hd k)" "xid_continue (last k)" "\<forall>c \<in> set k. xid_continue c"
proof -
  from assms obtain c r where k: "k = c # r" "xid_start c" "list_all xid_continue r"
    by (cases k) (auto simp: isidentifier_def)
  then have all: "\<forall>c \<in> set k. xid_continue c"
    by (auto simp: list_all_iff xid_start_continue)
  show "k \<noteq> []" using k by simp
  then show "xid_continue (hd k)" "xid_continue (last k)" using all by simp_all
  show "\<forall>c \<in> set k. xid_continue c" by (rule all)
qed

lemma strip_identifier: "isidentifier k \<Longrightarrow> strip k = k"
  using isidentifier_chars [of k] by (intro strip_id) (auto simp: xid_continue_not_space)

lemma find_colon_plain:
  assumes "\<forall>c \<in> set k. c \<noteq> dquote \<and> c \<noteq> squote \<and> c \<noteq> CHR '':''"
  shows "find_colon i False q (k @ CHR '':'' # rest) = Some (i + length k)"
  using assms by (induction k arbitrary: i) simp_all

lemma strip_Nil: "strip [] = []"
  by (simp add: strip_def lstrip_def rstrip_def)

lemma startswith_Cons: "startswith (c # r) (p # ps) \<longleftrightarrow> c = p \<and> startswith r ps"
  by (simp add: startswith_def)

lemma identifier_plain_chars:
  assumes "isidentifier k" and "c \<in> set k"
  shows "c \<noteq> dquote" "c \<noteq> squote" "c \<noteq> CHR '':''" "c \<noteq> CHR ''[''"
proof -
  from isidentifier_chars(4) [OF assms(1)] assms(2) have x: "xid_continue c" by simp
  show "c \<noteq> dquote" "c \<noteq> squote" "c \<noteq> CHR '':''" "c \<noteq> CHR ''[''"
    by (rule xid_continue_not_special [OF x])+
qed

lemma key_line_facts:
  assumes "isidentifier k"
  shows "strip (k @ '':'') = k @ '':''"
    and "k @ '':'' \<noteq> ''[]''" and "k @ '':'' \<noteq> ''{}''"
    and "\<not> startswith (k @ '':'') ''- ''" and "k @ '':'' \<noteq> ''-''"
    and "find_colon 0 False None (k @ '':'') = Some (length k)"
    and "CHR ''['' \<notin> set k"
proof -
  note ch = isidentifier_chars [OF assms]
  obtain c r where k: "k = c # r" using ch(1) by (cases k) auto
  have c: "xid_continue c" using ch(2) k by simp
  note sp = xid_continue_not_special [OF c]
  have "\<not> isspace (hd (k @ '':''))" using c by (simp add: k xid_continue_not_space)
  moreover have "\<not> isspace (last (k @ '':''))" by (simp add: isspace_def)
  ultimately show "strip (k @ '':'') = k @ '':''"
    by (intro strip_id) simp_all
  show "k @ '':'' \<noteq> ''[]''" using sp(4) by (simp add: k)
  show "k @ '':'' \<noteq> ''{}''" using sp(6) by (simp add: k)
  show "k @ '':'' \<noteq> ''-''" using sp(8) by (simp add: k)
  show "\<not> startswith (k @ '':'') ''- ''" using sp(8) by (simp add: k startswith_Cons)
  have "\<forall>c \<in> set k. c \<noteq> dquote \<and> c \<noteq> squote \<and> c \<noteq> CHR '':''"
    using identifier_plain_chars [OF assms] by simp
  from find_colon_plain [OF this, of 0 None "[]"]
  show "find_colon 0 False None (k @ '':'') = Some (length k)" by simp
  show "CHR ''['' \<notin> set k" using identifier_plain_chars(4) [OF assms] by auto
qed


fun nest :: "string list \<Rightarrow> 'f pyobj \<Rightarrow> 'f pyobj" where
  "nest [] leaf = leaf"
| "nest (k # ks) leaf = PyDict [(k, nest ks leaf)]"

fun nest_lines :: "nat \<Rightarrow> string list \<Rightarrow> string \<Rightarrow> line list" where
  "nest_lines d [] marker = [(d, marker)]"
| "nest_lines d (k # ks) marker = (d, k @ '':'') # nest_lines (Suc d) ks marker"



subsection \<open>Lines and text\<close>

definition unlines :: "string list \<Rightarrow> string" where
  "unlines ls = concat (map (\<lambda>l. l @ [LF]) ls)"

definition render :: "line \<Rightarrow> string" where
  "render ln = pad_of (fst ln) @ snd ln"

definition body_ok :: "string \<Rightarrow> bool" where
  "body_ok c = (c \<noteq> [] \<and> \<not> isspace (hd c) \<and> list_all (\<lambda>x. \<not> is_linebreak x) c)"

lemma splitlines_from_line:
  assumes "list_all (\<lambda>x. \<not> is_linebreak x) l"
  shows "splitlines_from cur (l @ LF # rest) = (cur @ l) # splitlines_from [] rest"
  using assms
proof (induction l arbitrary: cur)
  case Nil
  show ?case by (cases rest) (simp_all add: is_linebreak_def)
next
  case (Cons a l)
  then have a: "\<not> is_linebreak a" and l: "list_all (\<lambda>x. \<not> is_linebreak x) l" by simp_all
  obtain d s where ds: "l @ LF # rest = d # s" by (cases "l @ LF # rest") auto
  have "a \<noteq> CR" using a by (auto simp: is_linebreak_def)
  then have "splitlines_from cur (a # d # s) = splitlines_from (cur @ [a]) (d # s)"
    using a by simp
  then show ?case using Cons.IH [OF l, of "cur @ [a]"] ds by simp
qed

lemma splitlines_unlines:
  assumes "list_all (list_all (\<lambda>x. \<not> is_linebreak x)) ls"
  shows "splitlines (unlines ls) = ls"
proof -
  have "splitlines_from [] (unlines ls) = ls" using assms
  proof (induction ls)
    case Nil
    show ?case by (simp add: unlines_def)
  next
    case (Cons l ls)
    then have l: "list_all (\<lambda>x. \<not> is_linebreak x) l" and IH: "splitlines_from [] (unlines ls) = ls"
      by simp_all
    have "unlines (l # ls) = l @ LF # unlines ls" by (simp add: unlines_def)
    then show ?case using splitlines_from_line [OF l, of "[]" "unlines ls"] IH by simp
  qed
  then show ?thesis by (simp add: splitlines_def)
qed

lemma pad_of_Suc: "pad_of (Suc i) = CHR '' '' # CHR '' '' # pad_of i"
  by (simp add: pad_of_def INDENT_STR_def)

lemma pad_of_0: "pad_of 0 = []"
  by (simp add: pad_of_def)

lemma length_pad_of: "length (pad_of i) = 2 * i"
  by (induction i) (simp_all add: pad_of_0 pad_of_Suc)

lemma linebreak_is_space: "is_linebreak c \<Longrightarrow> isspace c"
  by (auto simp: is_linebreak_def isspace_def Let_def)

lemma pad_of_chars: "c \<in> set (pad_of i) \<Longrightarrow> c = CHR '' ''"
  by (induction i) (auto simp: pad_of_0 pad_of_Suc)

lemma count_leading_indent_pad:
  assumes "c \<noteq> []" "\<not> isspace (hd c)"
  shows "count_leading_indent (pad_of i @ c) = i"
proof (induction i)
  case 0
  obtain a r where c: "c = a # r" using assms(1) by (cases c) auto
  have a: "a \<noteq> CHR '' ''" using assms(2) c by (auto simp: isspace_def)
  show ?case using a by (cases r) (simp_all add: pad_of_0 c count_leading_indent_eval)
next
  case (Suc i)
  then show ?case by (simp add: pad_of_Suc count_leading_indent_Cons)
qed

lemma strip_nonempty:
  assumes "x \<in> set s" "\<not> isspace x"
  shows "strip s \<noteq> []"
proof -
  have a: "dropWhile isspace s \<noteq> []" using assms by (auto simp: dropWhile_eq_Nil_conv)
  have "\<exists>y \<in> set (dropWhile isspace s). \<not> isspace y"
    using a hd_dropWhile [of isspace s] by (metis hd_in_set)
  then have "dropWhile isspace (rev (dropWhile isspace s)) \<noteq> []"
    by (auto simp: dropWhile_eq_Nil_conv)
  then show ?thesis by (simp add: strip_def lstrip_def rstrip_def)
qed

lemma rstrip_char_id: "s \<noteq> [] \<Longrightarrow> last s \<noteq> c \<Longrightarrow> rstrip_char c s = s"
proof -
  assume a: "s \<noteq> []" "last s \<noteq> c"
  then have "rev s \<noteq> []" "hd (rev s) \<noteq> c" by (simp_all add: hd_rev)
  then have "dropWhile (\<lambda>d. d = c) (rev s) = rev s" by (cases "rev s") simp_all
  then show ?thesis by (simp add: rstrip_char_def)
qed

lemma render_line:
  assumes "body_ok c"
  shows "strip (render (i, c)) \<noteq> []"
    and "rstrip_char LF (render (i, c)) = render (i, c)"
    and "count_leading_indent (render (i, c)) = i"
    and "drop (i * length INDENT_STR) (render (i, c)) = c"
    and "list_all (\<lambda>x. \<not> is_linebreak x) (render (i, c))"
proof -
  from assms have ne: "c \<noteq> []" and hd: "\<not> isspace (hd c)"
    and nl: "list_all (\<lambda>x. \<not> is_linebreak x) c"
    by (simp_all add: body_ok_def)
  have "hd c \<in> set (render (i, c))" using ne by (simp add: render_def)
  then show "strip (render (i, c)) \<noteq> []" using hd by (rule strip_nonempty)
  have "\<not> is_linebreak (last c)" using nl ne by (simp add: list_all_iff)
  then have "last c \<noteq> LF" by (auto simp: is_linebreak_def)
  then have "last (render (i, c)) \<noteq> LF" using ne by (simp add: render_def)
  moreover have "render (i, c) \<noteq> []" using ne by (simp add: render_def)
  ultimately show "rstrip_char LF (render (i, c)) = render (i, c)"
    by (intro rstrip_char_id)
  show "count_leading_indent (render (i, c)) = i"
    using count_leading_indent_pad [OF ne hd] by (simp add: render_def)
  show "drop (i * length INDENT_STR) (render (i, c)) = c"
    by (simp add: render_def INDENT_STR_def length_pad_of mult.commute)
  have "\<not> is_linebreak CHR '' ''" by (simp add: is_linebreak_def)
  then have "\<forall>x \<in> set (pad_of i). \<not> is_linebreak x"
    using pad_of_chars by metis
  then show "list_all (\<lambda>x. \<not> is_linebreak x) (render (i, c))"
    using nl by (auto simp: render_def list_all_iff)
qed

lemma preprocess_unlines:
  assumes "list_all (\<lambda>ln. body_ok (snd ln)) ls"
  shows "preprocess (unlines (map render ls)) = ls"
proof -
  have ok: "\<And>i c. (i, c) \<in> set ls \<Longrightarrow> body_ok c"
    using assms by (auto simp: list_all_iff)
  have "list_all (list_all (\<lambda>x. \<not> is_linebreak x)) (map render ls)"
    unfolding list_all_iff
  proof
    fix l assume "l \<in> set (map render ls)"
    then obtain i c where ic: "(i, c) \<in> set ls" "l = render (i, c)" by auto
    from render_line(5) [OF ok [OF ic(1)], of i] ic(2)
    show "\<forall>x \<in> set l. \<not> is_linebreak x" by (simp add: list_all_iff)
  qed
  then have sp: "splitlines (unlines (map render ls)) = map render ls"
    by (rule splitlines_unlines)
  have fl: "filter (\<lambda>ln. strip ln \<noteq> []) (map render ls) = map render ls"
    using ok render_line(1) by (auto simp: filter_id_conv)
  have rs: "map (rstrip_char LF) (map render ls) = map render ls"
    using ok render_line(2) by (auto simp: map_idI)
  have "map (\<lambda>ln. let indent = count_leading_indent ln
               in (indent, drop (indent * length INDENT_STR) ln)) (map render ls) = ls"
    using ok render_line(3,4) by (auto simp: Let_def intro!: map_idI)
  then show ?thesis unfolding preprocess_def sp fl rs .
qed

subsection \<open>Nested mappings\<close>

lemma dumps_single_entry:
  assumes "\<not> is_primitive v"
  shows "dumps h None d (PyDict [(k, v)])
         = pad_of d @ escape_header_key k @ '':'' @ [LF]
           @ rstrip_char LF (dumps h None (Suc d) v) @ [LF]"
  using assms
  by (subst dumps.simps(2))
     (cases v; simp add: truthy_def join_lines_def is_primitive_def del: dumps.simps)

lemma rstrip_char_snoc: "rstrip_char c (s @ [c]) = rstrip_char c s"
  by (simp add: rstrip_char_def)

lemma unlines_snoc: "unlines (ls @ [l]) = unlines ls @ l @ [LF]"
  by (simp add: unlines_def)

lemma rstrip_unlines:
  assumes "ls \<noteq> []" "last ls \<noteq> []" "last (last ls) \<noteq> LF"
  shows "rstrip_char LF (unlines ls) @ [LF] = unlines ls"
proof -
  obtain bs l where ls: "ls = bs @ [l]" using assms(1) by (metis append_butlast_last_id)
  with assms have l: "l \<noteq> []" "last l \<noteq> LF" by simp_all
  have "rstrip_char LF (unlines bs @ l) = unlines bs @ l"
    using l by (intro rstrip_char_id) simp_all
  then show ?thesis
    using rstrip_char_snoc [of LF "unlines bs @ l"] by (simp add: ls unlines_snoc)
qed

lemma nest_lines_last:
  "nest_lines d ks marker \<noteq> []"
  "last (nest_lines d ks marker) = (d + length ks, marker)"
  by (induction ks arbitrary: d) simp_all

lemma nest_not_primitive: "\<not> is_primitive leaf \<Longrightarrow> \<not> is_primitive (nest ks leaf)"
  by (cases ks) (simp_all add: is_primitive_def)

lemma dumps_nest:
  assumes keys: "list_all isidentifier ks"
    and leaf: "\<And>i. dumps h None i leaf = pad_of i @ marker @ [LF]" "\<not> is_primitive leaf"
    and marker: "marker \<noteq> []" "last marker \<noteq> LF"
  shows "dumps h None d (nest ks leaf) = unlines (map render (nest_lines d ks marker))"
  using keys
proof (induction ks arbitrary: d)
  case Nil
  show ?case by (simp add: leaf(1) unlines_def render_def)
next
  case (Cons k ks)
  then have k: "isidentifier k" and ks: "list_all isidentifier ks" by simp_all
  let ?L = "map render (nest_lines (Suc d) ks marker)"
  have L: "?L \<noteq> []" "last ?L = pad_of (Suc d + length ks) @ marker"
    using nest_lines_last [of "Suc d" ks marker] by (simp_all add: last_map render_def)
  have rs: "rstrip_char LF (unlines ?L) @ [LF] = unlines ?L"
    using L marker by (intro rstrip_unlines) simp_all
  have "dumps h None d (nest (k # ks) leaf)
        = pad_of d @ k @ '':'' @ [LF] @ rstrip_char LF (dumps h None (Suc d) (nest ks leaf)) @ [LF]"
    using dumps_single_entry [OF nest_not_primitive [OF leaf(2)], of h d k ks] k
    by (simp add: escape_header_key_def del: dumps.simps)
  also have "\<dots> = pad_of d @ k @ '':'' @ [LF] @ unlines ?L"
    by (simp only: Cons.IH [OF ks] rs)
  also have "\<dots> = unlines (map render (nest_lines d (k # ks) marker))"
    by (simp add: unlines_def render_def)
  finally show ?case .
qed

lemma body_ok_key_line: "isidentifier k \<Longrightarrow> body_ok (k @ '':'')"
proof -
  assume k: "isidentifier k"
  note ch = isidentifier_chars [OF k]
  have "\<not> isspace (hd (k @ '':''))" using ch(1,2) by (simp add: xid_continue_not_space)
  moreover have "\<not> is_linebreak CHR '':''" by (simp add: is_linebreak_def)
  then have "list_all (\<lambda>x. \<not> is_linebreak x) (k @ '':'')"
    using ch(4) xid_continue_not_linebreak by (auto simp: list_all_iff)
  ultimately show ?thesis by (simp add: body_ok_def)
qed

lemma body_ok_markers: "body_ok ''{}''" "body_ok ''[]''"
  by (simp_all add: body_ok_def isspace_def is_linebreak_def)

lemma body_ok_nest_lines:
  assumes "list_all isidentifier ks" "body_ok marker"
  shows "list_all (\<lambda>ln. body_ok (snd ln)) (nest_lines d ks marker)"
  using assms by (induction ks arbitrary: d) (simp_all add: body_ok_key_line)

lemma plain_keys_identifiers: "list_all plain_key ks \<Longrightarrow> list_all isidentifier ks"
  by (simp add: list_all_iff plain_key_def)











section \<open>The table of a named sequence\<close>

text \<open>
  The table form of \<open>dumps\<close> (toon.py, lines 163-184). \<open>table_columns\<close> is the key
  order that \<open>_all_dicts_uniform\<close> returns for a uniform sequence: the keys of the
  first mapping when all mappings list their keys in the same order, the sorted key
  set otherwise. \<open>table_header\<close> is the header line for a name, \<open>table_row\<close> the line of
  one element, and \<open>count_newlines\<close> counts the line feeds of a text.
\<close>

definition table_columns :: "'f pyobj list \<Rightarrow> string list" where
  "table_columns lst =
     (if \<forall>x \<in> set lst. \<forall>y \<in> set lst. dict_keys x = dict_keys y
      then dict_keys (hd lst)
      else sorted_list_of_set (set (dict_keys (hd lst))))"

definition table_header :: "nat \<Rightarrow> string \<Rightarrow> 'f pyobj list \<Rightarrow> string" where
  "table_header indent name lst =
     pad_of indent @ name @ ''['' @ str_nat (length lst) @ '']{''
     @ join '','' (map escape_header_key (table_columns lst)) @ ''}:''"

definition table_row :: "'f host \<Rightarrow> nat \<Rightarrow> 'f pyobj list \<Rightarrow> 'f pyobj \<Rightarrow> string" where
  "table_row h indent lst d =
     pad_of indent @ INDENT_STR
     @ join '','' (map (\<lambda>k. prim_token h (dict_get d k)) (table_columns lst))"

definition count_newlines :: "string \<Rightarrow> nat" where
  "count_newlines s = length (filter (\<lambda>c. c = LF) s)"

lemma join_lines_unlines: "join_lines ls = unlines ls"
  by (induction ls rule: join.induct [of _ "[LF]"]) (simp_all add: join_lines_def unlines_def)

lemma join_LF_unlines: "ls \<noteq> [] \<Longrightarrow> join [LF] ls @ [LF] = unlines ls"
  using join_lines_unlines [of ls] by (simp add: join_lines_def)

lemma all_dicts_uniform_columns:
  assumes "lst \<noteq> []" and "\<forall>d \<in> set lst. is_dict d"
    and "\<forall>x \<in> set lst. \<forall>y \<in> set lst. set (dict_keys x) = set (dict_keys y)"
  shows "all_dicts_uniform lst = (True, Some (table_columns lst))"
proof -
  from assms(2) have d: "list_all is_dict lst" by (simp only: list_all_iff)
  show ?thesis
    unfolding all_dicts_uniform_dicts [OF assms(1) d] if_P [OF assms(3)] table_columns_def ..
qed

lemma table_columns_nonempty:
  assumes "dict_keys (hd lst) \<noteq> []"
  shows "table_columns lst \<noteq> []"
proof -
  have "set (sorted_list_of_set (set (dict_keys (hd lst)))) = set (dict_keys (hd lst))" by simp
  then have "sorted_list_of_set (set (dict_keys (hd lst))) \<noteq> []"
    using assms by (metis set_empty)
  then show ?thesis using assms by (simp add: table_columns_def)
qed

lemma dumps_keyed_table:
  assumes ne: "lst \<noteq> []" and dicts: "\<forall>d \<in> set lst. is_dict d"
    and same: "\<forall>x \<in> set lst. \<forall>y \<in> set lst. set (dict_keys x) = set (dict_keys y)"
    and keys: "dict_keys (hd lst) \<noteq> []"
    and prims: "\<forall>d \<in> set lst. \<forall>v \<in> set (dict_values d). is_primitive v"
  shows "dumps h name indent (PyList lst)
         = unlines (table_header indent (name_of name) lst # map (table_row h indent lst) lst)"
proof -
  have name: "\<not> truthy name \<Longrightarrow> name_of name = []"
    by (cases name) (simp_all add: truthy_def name_of_def)
  note u = all_dicts_uniform_columns [OF ne dicts same]
  note c = table_columns_nonempty [OF keys]
  from prims have p: "list_all (\<lambda>d. list_all is_primitive (dict_values d)) lst"
    by (simp only: list_all_iff)
  have r: "(\<lambda>d. pad_of indent @ INDENT_STR
              @ join '','' (map (\<lambda>k. prim_token h (dict_get d k)) (table_columns lst)))
           = table_row h indent lst"
    by (rule ext) (simp only: table_row_def)
  have "dumps h name indent (PyList lst)
        = join [LF] (table_header indent (name_of name) lst # map (table_row h indent lst) lst) @ [LF]"
    using ne name c p
    by (simp add: u table_header_def Let_def r)
  then show ?thesis by (simp add: join_LF_unlines)
qed

text \<open>No line feed inside a line of the table.\<close>

lemma count_newlines_append: "count_newlines (a @ b) = count_newlines a + count_newlines b"
  by (simp add: count_newlines_def)

lemma count_newlines_0: "LF \<notin> set s \<Longrightarrow> count_newlines s = 0"
  by (induction s) (auto simp: count_newlines_def)

lemma count_newlines_unlines:
  "\<forall>l \<in> set ls. LF \<notin> set l \<Longrightarrow> count_newlines (unlines ls) = length ls"
proof (induction ls)
  case Nil
  show ?case by (simp add: unlines_def count_newlines_def)
next
  case (Cons l ls)
  then have l: "LF \<notin> set l" and ih: "count_newlines (unlines ls) = length ls" by simp_all
  have u: "unlines (l # ls) = l @ ([LF] @ unlines ls)" by (simp add: unlines_def)
  have one: "count_newlines [LF] = 1" by (simp add: count_newlines_def)
  show ?case
    unfolding u count_newlines_append count_newlines_0 [OF l] one ih by simp
qed

lemma join_no_LF:
  "LF \<notin> set sep \<Longrightarrow> \<forall>x \<in> set xs. LF \<notin> set x \<Longrightarrow> LF \<notin> set (join sep xs)"
  by (induction sep xs rule: join.induct) simp_all

lemma pad_of_no_LF: "LF \<notin> set (pad_of i)"
  using pad_of_chars [of LF i] by auto

lemma digit_char_no_LF: "d < 10 \<Longrightarrow> digit_char d \<noteq> LF"
proof -
  assume "d < 10"
  then have "d < length ''0123456789''" by simp
  then have "''0123456789'' ! d \<in> set ''0123456789''" by (rule nth_mem)
  moreover have "LF \<notin> set ''0123456789''" by simp
  ultimately show ?thesis unfolding digit_char_def by metis
qed

lemma str_nat_no_LF: "LF \<notin> set (str_nat n)"
proof (induction n rule: str_nat.induct)
  case (1 n)
  show ?case
  proof (cases "n < 10")
    case True
    then show ?thesis using digit_char_no_LF [of n] by (subst str_nat.simps) auto
  next
    case False
    have "n mod 10 < 10" by simp
    then have "digit_char (n mod 10) \<noteq> LF" by (rule digit_char_no_LF)
    then show ?thesis using False 1 by (subst str_nat.simps) auto
  qed
qed

lemma str_int_no_LF: "LF \<notin> set (str_int i)"
  by (simp add: str_int_def str_nat_no_LF)

lemma hex_digit_no_LF: "d < 16 \<Longrightarrow> hex_digit d \<noteq> LF"
proof -
  assume "d < 16"
  then have "d < length ''0123456789abcdef''" by simp
  then have "''0123456789abcdef'' ! d \<in> set ''0123456789abcdef''" by (rule nth_mem)
  moreover have "LF \<notin> set ''0123456789abcdef''" by simp
  ultimately show ?thesis unfolding hex_digit_def by metis
qed

lemma json_escape_no_LF: "LF \<notin> set (json_escape c)"
proof -
  have "(of_char c :: nat) < 16 * 16" by simp
  then have "(of_char c :: nat) div 16 < 16" by (rule less_mult_imp_div_less)
  then have a: "hex_digit ((of_char c :: nat) div 16) \<noteq> LF" by (rule hex_digit_no_LF)
  have "(of_char c :: nat) mod 16 < 16" by simp
  then have b: "hex_digit ((of_char c :: nat) mod 16) \<noteq> LF" by (rule hex_digit_no_LF)
  show ?thesis using a b by (simp add: json_escape_def)
qed

lemma json_dumps_no_LF: "LF \<notin> set (json_dumps s)"
  by (simp add: json_dumps_def json_escape_no_LF)

lemma escape_header_key_no_LF: "LF \<notin> set (escape_header_key k)"
proof (cases "isidentifier k")
  case True
  have "LF \<notin> set k"
  proof
    assume "LF \<in> set k"
    with isidentifier_chars(4) [OF True] have "xid_continue LF" by blast
    then show False by (simp add: xid_continue_def xid_start_def Let_def)
  qed
  with True show ?thesis by (simp add: escape_header_key_def)
next
  case False
  then show ?thesis by (simp add: escape_header_key_def json_dumps_no_LF)
qed

lemma to_toon_primitive_no_LF:
  assumes "\<forall>f. LF \<notin> set (str_float h f)"
  shows "LF \<notin> set (to_toon_primitive h p)"
proof (cases p)
  case (PStr s)
  show ?thesis
  proof (cases "s = [] \<or> needs_quote s")
    case True
    then show ?thesis using json_dumps_no_LF [of s] by (auto simp: PStr to_toon_primitive_def)
  next
    case False
    then have "LF \<notin> set s" by (simp add: needs_quote_def)
    with False show ?thesis by (simp add: PStr to_toon_primitive_def)
  qed
qed (simp_all add: to_toon_primitive_def str_int_no_LF assms)

lemma prim_token_no_LF:
  "\<forall>f. LF \<notin> set (str_float h f) \<Longrightarrow> LF \<notin> set (prim_token h x)"
  by (cases x) (simp_all add: prim_token_def to_toon_primitive_no_LF)

lemma table_header_no_LF: "LF \<notin> set name \<Longrightarrow> LF \<notin> set (table_header indent name lst)"
  by (simp add: table_header_def pad_of_no_LF str_nat_no_LF join_no_LF escape_header_key_no_LF)

lemma table_row_no_LF:
  "\<forall>f. LF \<notin> set (str_float h f) \<Longrightarrow> LF \<notin> set (table_row h indent lst d)"
  by (simp add: table_row_def pad_of_no_LF INDENT_STR_def join_no_LF prim_token_no_LF)

lemma table_line_count:
  assumes "LF \<notin> set name" "\<forall>f. LF \<notin> set (str_float h f)"
  shows "count_newlines (unlines (table_header indent name lst # map (table_row h indent lst) rows))
         = Suc (length rows)"
proof -
  have "\<forall>l \<in> set (table_header indent name lst # map (table_row h indent lst) rows). LF \<notin> set l"
    using table_header_no_LF [OF assms(1)] table_row_no_LF [OF assms(2)] by auto
  then show ?thesis by (simp only: count_newlines_unlines length_Cons length_map)
qed

text \<open>
  Three rows with a key that is no identifier, listed in two different orders, and a
  value that needs quotes.
\<close>

definition quoted_rows :: "unit pyobj list" where
  "quoted_rows = [PyDict [(''x'', Prim PNone), (''a b'', Prim (PInt 1))],
                  PyDict [(''a b'', Prim (PStr ''p,q'')), (''x'', Prim (PBool True))],
                  PyDict [(''x'', Prim (PInt 3)), (''a b'', Prim (PInt 2))]]"

lemma quoted_columns: "table_columns quoted_rows = [''a b'', ''x'']"
proof -
  have o: "\<not> (\<forall>x \<in> set quoted_rows. \<forall>y \<in> set quoted_rows. dict_keys x = dict_keys y)"
    by (simp add: quoted_rows_def dict_keys_def)
  have s: "sorted [''a b'', ''x'' :: string]" "distinct [''a b'', ''x'' :: string]"
    by (simp_all add: less_eq_char_def less_char_def)
  have "set (dict_keys (hd quoted_rows)) = set [''a b'', ''x'']"
    by (simp add: quoted_rows_def dict_keys_def insert_commute)
  then have "sorted_list_of_set (set (dict_keys (hd quoted_rows)))
             = sorted_list_of_set (set [''a b'', ''x''])"
    by (simp only:)
  also have "\<dots> = [''a b'', ''x'']"
    using s by (simp only: sorted_list_of_set.idem_if_sorted_distinct)
  finally show ?thesis unfolding table_columns_def if_not_P [OF o] .
qed

lemma dumps_empty_rows:
  "dumps h (Some ''tbl'') 0 (PyList [PyDict [], PyDict []])
     = ''tbl[2]:\<newline>  -\<newline>    {}\<newline>  -\<newline>    {}\<newline>''"
  by (simp add: text_eval dumps_eval all_dicts_uniform_def)

text \<open>
  Claim C3, as amended. A non-empty sequence of mappings that share one non-empty key
  set and hold only primitive values, passed to \<open>dumps\<close> with a name, is written as
  the header line \<open>name[N]{k1,k2,...}:\<close> followed by one line per element, in the
  order of the sequence, one level deeper and holding the element's values in column
  order; every line ends with a line feed. Without a name, or with the empty name, the
  header is \<open>[N]{k1,k2,...}:\<close> and the rows are the same. When neither the name nor
  a float text of the host holds a line feed, the text has exactly \<open>N + 1\<close> line
  feeds: one header line and \<open>N\<close> row lines. For the two rows of the specification
  and the name \<open>tbl\<close> the text is \<open>tbl[2]{id,val}:\<close>, \<open>1,A\<close>, \<open>2,B\<close>.
\<close>

theorem C3_keyed_table:
  assumes "lst \<noteq> []" and "\<forall>d \<in> set lst. is_dict d"
    and "\<forall>x \<in> set lst. \<forall>y \<in> set lst. set (dict_keys x) = set (dict_keys y)"
    and "dict_keys (hd lst) \<noteq> []"
    and "\<forall>d \<in> set lst. \<forall>v \<in> set (dict_values d). is_primitive v"
  shows "dumps h name indent (PyList lst)
           = unlines (table_header indent (name_of name) lst # map (table_row h indent lst) lst)
         \<and> (LF \<notin> set (name_of name) \<and> (\<forall>f. LF \<notin> set (str_float h f)) \<longrightarrow>
              count_newlines (dumps h name indent (PyList lst)) = Suc (length lst))"
proof (intro conjI impI)
  show d: "dumps h name indent (PyList lst)
         = unlines (table_header indent (name_of name) lst # map (table_row h indent lst) lst)"
    using assms by (rule dumps_keyed_table)
  assume "LF \<notin> set (name_of name) \<and> (\<forall>f. LF \<notin> set (str_float h f))"
  then have "LF \<notin> set (name_of name)" "\<forall>f. LF \<notin> set (str_float h f)" by simp_all
  then show "count_newlines (dumps h name indent (PyList lst)) = Suc (length lst)"
    unfolding d by (rule table_line_count)
qed

theorem C3_keyed_table_witness:
  \<open>dumps plain_host (Some ''tbl'') 0 tbl_rows = ''tbl[2]{id,val}:\<newline>  1,A\<newline>  2,B\<newline>''
   \<and> count_newlines (dumps plain_host (Some ''tbl'') 0 tbl_rows) = 3
   \<and> dumps plain_host (Some ''t'') 1 (PyList quoted_rows)
     = ''  t[3]{"a b",x}:\<newline>    1,null\<newline>    "p,q",true\<newline>    2,3\<newline>''\<close>
proof -
  let ?rows = "[PyDict [(''id'', Prim (PInt 1)), (''val'', Prim (PStr ''A''))],
                PyDict [(''id'', Prim (PInt 2)), (''val'', Prim (PStr ''B''))]] :: unit pyobj list"
  have r: "tbl_rows = PyList ?rows" by (simp add: tbl_rows_def)
  have a1: "?rows \<noteq> []" by simp
  have a2: "\<forall>d \<in> set ?rows. is_dict d" by (simp add: is_dict_def)
  have a3: "\<forall>x \<in> set ?rows. \<forall>y \<in> set ?rows. set (dict_keys x) = set (dict_keys y)"
    by (simp add: dict_keys_def)
  have a4: "dict_keys (hd ?rows) \<noteq> []" by (simp add: dict_keys_def)
  have a5: "\<forall>d \<in> set ?rows. \<forall>v \<in> set (dict_values d). is_primitive v"
    by (simp add: dict_values_def is_primitive_def)
  note T = C3_keyed_table [of ?rows plain_host "Some ''tbl''" 0, OF a1 a2 a3 a4 a5]
  have c: "table_columns ?rows = [''id'', ''val'']"
    by (simp add: table_columns_def dict_keys_def)
  have t: "unlines (table_header 0 (name_of (Some ''tbl'')) ?rows
                    # map (table_row plain_host 0 ?rows) ?rows)
           = ''tbl[2]{id,val}:\<newline>  1,A\<newline>  2,B\<newline>''"
    unfolding table_header_def table_row_def c
    by (simp add: unlines_def text_eval dumps_eval)
  have n: "LF \<notin> set (name_of (Some ''tbl'')) \<and> (\<forall>f. LF \<notin> set (str_float plain_host f))"
    by (simp add: plain_host_def name_of_def)
  from T [THEN conjunct1] t have w1: "dumps plain_host (Some ''tbl'') 0 tbl_rows
      = ''tbl[2]{id,val}:\<newline>  1,A\<newline>  2,B\<newline>''"
    unfolding r by simp
  from T [THEN conjunct2, rule_format, OF n]
  have w2: "count_newlines (dumps plain_host (Some ''tbl'') 0 tbl_rows) = 3"
    unfolding r by simp
  have b1: "quoted_rows \<noteq> []" by (simp add: quoted_rows_def)
  have b2: "\<forall>d \<in> set quoted_rows. is_dict d" by (simp add: quoted_rows_def is_dict_def)
  have b3: "\<forall>x \<in> set quoted_rows. \<forall>y \<in> set quoted_rows. set (dict_keys x) = set (dict_keys y)"
    by (simp add: quoted_rows_def dict_keys_def insert_commute)
  have b4: "dict_keys (hd quoted_rows) \<noteq> []" by (simp add: quoted_rows_def dict_keys_def)
  have b5: "\<forall>d \<in> set quoted_rows. \<forall>v \<in> set (dict_values d). is_primitive v"
    by (simp add: quoted_rows_def dict_values_def is_primitive_def)
  note U = C3_keyed_table [of quoted_rows plain_host "Some ''t''" 1, OF b1 b2 b3 b4 b5]
  have t2: \<open>unlines (table_header 1 (name_of (Some ''t'')) quoted_rows
                    # map (table_row plain_host 1 quoted_rows) quoted_rows)
           = ''  t[3]{"a b",x}:\<newline>    1,null\<newline>    "p,q",true\<newline>    2,3\<newline>''\<close>
    unfolding table_header_def table_row_def quoted_columns
    by (simp add: quoted_rows_def unlines_def text_eval dumps_eval json_dumps_def json_escape_def)
  from U [THEN conjunct1] t2 have w3: \<open>dumps plain_host (Some ''t'') 1 (PyList quoted_rows)
      = ''  t[3]{"a b",x}:\<newline>    1,null\<newline>    "p,q",true\<newline>    2,3\<newline>''\<close>
    by simp
  from w1 w2 w3 show ?thesis by simp
qed

text \<open>
  The claim as first stated, for the mapping \<open>{"tbl": rows}\<close>: the branch for a
  \<open>dict\<close> passes no name down, so the text is the line \<open>tbl:\<close>, then the table
  without a name \<open>[2]{id,val}:\<close> and its rows one level deeper. And mappings
  without a key are not written as a table, with a name or without: \<open>dumps\<close> asks for
  a key order that is not empty, and writes two empty mappings as a block of two
  items.
\<close>

theorem C3_mapping_counterexample:
  "dumps plain_host None 0 (PyDict [(''tbl'', tbl_rows)])
     = ''tbl:\<newline>  [2]{id,val}:\<newline>    1,A\<newline>    2,B\<newline>''
   \<and> dumps plain_host None 0 (PyDict [(''tbl'', tbl_rows)])
     \<noteq> ''tbl[2]{id,val}:\<newline>  1,A\<newline>  2,B\<newline>''
   \<and> dumps plain_host (Some ''tbl'') 0 (PyList [PyDict [], PyDict []])
     = ''tbl[2]:\<newline>  -\<newline>    {}\<newline>  -\<newline>    {}\<newline>''"
  unfolding dumps_tbl_mapping dumps_empty_rows by simp

section \<open>The call stack\<close>

text \<open>
  \<open>dumps\<close> calls itself for every value that is no primitive (toon.py, lines 147 and
  214), and \<open>parse_block\<close> calls itself for every nested block (lines 362 and 469).
  Neither takes a depth, counts one or compares one with a maximum, and the module
  defines no error of its own for a nesting that is too deep. What bounds the
  recursion is the interpreter: a call that would exceed its recursion limit raises
  \<open>RecursionError\<close>, and no handler encloses one of these four calls, so the error
  leaves \<open>dumps\<close> or \<open>loads\<close>. (The call at line 220 stands inside a handler; it is
  reached only for an object that is no primitive, mapping or sequence, which \<open>pyobj\<close>
  does not hold.)

  The functions below are \<open>dumps\<close>, \<open>parse_block\<close> and \<open>loads\<close> with this stack made
  explicit. The first argument is the number of frames that the interpreter still
  grants: an invocation with no frame left is the error, an invocation with
  \<open>Suc frames\<close> runs the body of the function, the loop of \<open>parse_block\<close> stays in its
  frame, a recursive call gets \<open>frames\<close>, and the error of a recursive call is the
  error of the caller. Only the frames of \<open>dumps\<close>, \<open>loads\<close> and \<open>parse_block\<close> are
  counted. The frames of the helper functions, of the library and of the caller of
  \<open>dumps\<close> or \<open>loads\<close> come on top of them in the interpreter, so the code fails with
  \<open>RecursionError\<close> at least where these functions do.
\<close>

datatype error = RecursionError

text \<open>
  The lines that a loop over the entries appends, one result per entry in order: the
  first error ends the loop and is its result. Then \<open>dumps\<close> with the frames left.
\<close>

fun collect :: "(error + 'a) list \<Rightarrow> error + 'a list" where
  "collect [] = Inr []"
| "collect (Inl err # rs) = Inl err"
| "collect (Inr x # rs) = (case collect rs of Inl err \<Rightarrow> Inl err | Inr xs \<Rightarrow> Inr (x # xs))"

fun dumps_lim :: "nat \<Rightarrow> 'f host \<Rightarrow> string option \<Rightarrow> nat \<Rightarrow> 'f pyobj \<Rightarrow> error + string" where
  "dumps_lim 0 h name indent obj = Inl RecursionError"
| "dumps_lim (Suc frames) h name indent (Prim x) =
     (let pad = pad_of indent; val = to_toon_primitive h x
      in if truthy name then Inr (pad @ name_of name @ '': '' @ val @ [LF])
         else Inr (pad @ val @ [LF]))"
| "dumps_lim (Suc frames) h name indent (PyDict obj) =
     (let pad = pad_of indent;
          lines0 = (if truthy name then [pad @ name_of name @ '':''] else []);
          child_pad = (if truthy name then pad_of (indent + 1) else pad)
      in if obj = [] then
           (if truthy name then Inr (pad @ name_of name @ '':'' @ [LF] @ child_pad @ ''{}'' @ [LF])
            else Inr (pad @ ''{}'' @ [LF]))
         else
           (case collect (map (\<lambda>(k, v).
              let key = escape_header_key k
              in (case v of
                    Prim p \<Rightarrow> Inr [child_pad @ key @ '': '' @ to_toon_primitive h p]
                  | _ \<Rightarrow>
                      (case dumps_lim frames h None (indent + 1) v of
                         Inl err \<Rightarrow> Inl err
                       | Inr s \<Rightarrow> Inr [child_pad @ key @ '':'', rstrip_char LF s]))) obj) of
              Inl err \<Rightarrow> Inl err
            | Inr ls \<Rightarrow> Inr (join_lines (lines0 @ concat ls))))"
| "dumps_lim (Suc frames) h name indent (PyList lst) =
     (let pad = pad_of indent; n = length lst
      in if n = 0 then
           (if truthy name then Inr (pad @ name_of name @ ''[0]:'' @ [LF]) else Inr (pad @ ''[]'' @ [LF]))
         else
           (case all_dicts_uniform lst of (uniform, keys_opt) \<Rightarrow>
              let ks = (case keys_opt of None \<Rightarrow> [] | Some ks \<Rightarrow> ks)
              in if uniform \<and> ks \<noteq> [] \<and> list_all (\<lambda>d. list_all is_primitive (dict_values d)) lst then
                   (let keys_escaped = join '','' (map escape_header_key ks);
                        header = (if truthy name
                                  then pad @ name_of name @ ''['' @ str_nat n @ '']{'' @ keys_escaped @ ''}:''
                                  else pad @ ''['' @ str_nat n @ '']{'' @ keys_escaped @ ''}:'')
                    in Inr (join [LF] (header # map (\<lambda>d. pad @ INDENT_STR @
                          join '','' (map (\<lambda>k. prim_token h (dict_get d k)) ks)) lst) @ [LF]))
                 else if list_all is_primitive lst then
                   (let vals = join '','' (map (prim_token h) lst)
                    in if truthy name then Inr (pad @ name_of name @ ''['' @ str_nat n @ '']: '' @ vals @ [LF])
                       else Inr (pad @ ''- '' @ join '', '' (map (prim_token h) lst) @ [LF]))
                 else
                   (let lines0 = (if truthy name then [pad @ name_of name @ ''['' @ str_nat n @ '']:''] else []);
                        item_indent_str = (if truthy name then pad @ INDENT_STR else pad);
                        nested_indent = (if truthy name then indent + 2 else indent + 1)
                    in (case collect (map (\<lambda>item.
                          (case item of
                             Prim p \<Rightarrow> Inr [item_indent_str @ ''- '' @ to_toon_primitive h p]
                           | _ \<Rightarrow>
                               (case dumps_lim frames h None nested_indent item of
                                  Inl err \<Rightarrow> Inl err
                                | Inr s \<Rightarrow> Inr [item_indent_str @ ''-'', rstrip_char LF s]))) lst) of
                          Inl err \<Rightarrow> Inl err
                        | Inr ls \<Rightarrow> Inr (join [LF] (lines0 @ concat ls) @ [LF])))))"

text \<open>\<open>parse_block\<close> and \<open>loads\<close> with the frames left.\<close>

function parse_block_lim ::
  "nat \<Rightarrow> 'f host \<Rightarrow> nat \<Rightarrow> (string \<times> 'f pyobj) list \<Rightarrow> 'f pyobj list option \<Rightarrow> line list
     \<Rightarrow> error + ('f pyobj \<times> line list)" where
  "parse_block_lim 0 h expected_indent result arr_mode ls = Inl RecursionError"
| "parse_block_lim (Suc frames) h expected_indent result arr_mode [] = Inr (finish result arr_mode, [])"
| "parse_block_lim (Suc frames) h expected_indent result arr_mode ((indent, content) # rest) =
     (if indent < expected_indent then Inr (finish result arr_mode, (indent, content) # rest)
      else if indent > expected_indent then Inr (finish result arr_mode, (indent, content) # rest)
      else if strip content = ''[]'' then
        (if arr_mode = None \<and> result = [] then Inr (PyList [], rest)
         else parse_block_lim (Suc frames) h expected_indent result arr_mode rest)
      else if strip content = ''{}'' then
        (if arr_mode = None \<and> result = [] then Inr (PyDict [], rest)
         else parse_block_lim (Suc frames) h expected_indent result arr_mode rest)
      else if startswith content ''- '' \<or> content = ''-'' then
        (let arr = (case arr_mode of None \<Rightarrow> [] | Some a \<Rightarrow> a)
         in if content = ''-'' then
              (if rest \<noteq> [] \<and> fst (hd rest) > indent then
                 (case parse_block_lim frames h (indent + 1) [] None rest of
                    Inl err \<Rightarrow> Inl err
                  | Inr (item, rest') \<Rightarrow>
                      parse_block_lim (Suc frames) h expected_indent result (Some (arr @ [item])) rest')
               else parse_block_lim (Suc frames) h expected_indent result (Some (arr @ [Prim PNone])) rest)
            else
              (let val_tok = strip (drop 2 content)
               in if CHR '','' \<in> set val_tok
                     \<and> \<not> (startswith val_tok [dquote] \<or> startswith val_tok [squote]) then
                    parse_block_lim (Suc frames) h expected_indent result
                      (Some (arr @ map (\<lambda>p. Prim (parse_primitive_token h p))
                                     (split_csv_like val_tok))) rest
                  else
                    parse_block_lim (Suc frames) h expected_indent result
                      (Some (arr @ [Prim (parse_primitive_token h val_tok)])) rest))
      else
        (case find_colon 0 False None content of
           None \<Rightarrow>
             (let val = Prim (parse_primitive_token h content)
              in if arr_mode = None \<and> result = [] then Inr (val, rest)
                 else (case arr_mode of
                         Some arr \<Rightarrow>
                           parse_block_lim (Suc frames) h expected_indent result (Some (arr @ [val])) rest
                       | None \<Rightarrow> parse_block_lim (Suc frames) h expected_indent result arr_mode rest))
         | Some colon_pos \<Rightarrow>
             (let key_part = strip (take colon_pos content);
                  val_part = strip (drop (colon_pos + 1) content)
              in if val_part = [] then
                   (if CHR ''['' \<in> set key_part \<and> CHR '']'' \<in> set key_part
                       \<and> CHR ''{'' \<in> set key_part \<and> CHR ''}'' \<in> set key_part then
                      (let name_section = strip (before_bracket key_part);
                           ks = table_keys key_part
                       in (case table_rows h ks expected_indent rest of
                             (rows, rest') \<Rightarrow>
                               parse_block_lim (Suc frames) h expected_indent
                                 (dict_set result
                                    (if name_section = [] then ''_table'' else name_section)
                                    (PyList rows))
                                 arr_mode rest'))
                    else
                      (case list_header key_part of
                         (real_key, is_list_header) \<Rightarrow>
                           (case parse_block_lim frames h (expected_indent + 1) [] None rest of
                              Inl err \<Rightarrow> Inl err
                            | Inr (nested, rest') \<Rightarrow>
                                parse_block_lim (Suc frames) h expected_indent
                                  (dict_set result real_key
                                     (if is_list_header \<and> nested = PyDict [] then PyList []
                                      else nested))
                                  arr_mode rest')))
                 else if CHR ''['' \<in> set key_part \<and> CHR '']'' \<in> set key_part then
                   parse_block_lim (Suc frames) h expected_indent
                     (dict_set result (strip (before_bracket key_part))
                        (PyList (map (\<lambda>p. Prim (parse_primitive_token h p))
                                   (filter (\<lambda>p. p \<noteq> []) (split_csv_like val_part)))))
                     arr_mode rest
                 else
                   parse_block_lim (Suc frames) h expected_indent
                     (dict_set result key_part (Prim (parse_primitive_token h val_part)))
                     arr_mode rest)))"
  by pat_completeness auto

lemma parse_block_lim_length:
  "parse_block_lim_dom (fr, h, e, result, arr_mode, ls) \<Longrightarrow>
   parse_block_lim fr h e result arr_mode ls = Inr (v, ls') \<Longrightarrow> length ls' \<le> length ls"
proof (induction fr h e result arr_mode ls arbitrary: v ls' rule: parse_block_lim.pinduct)
  case (1 h e result arr_mode ls)
  then show ?case by (simp add: parse_block_lim.psimps)
next
  case (2 fr h e result arr_mode)
  then show ?case by (simp add: parse_block_lim.psimps)
next
  case (3 fr h e result arr_mode indent content rest)
  note dom = 3(1)
  note IH = 3(2-15)
  note res = 3(16)
  note step = parse_block_lim.psimps(3) [OF dom]
  let ?arr = "case arr_mode of None \<Rightarrow> [] | Some a \<Rightarrow> a"
  show ?case
  proof (cases "indent < e \<or> e < indent")
    case True
    then show ?thesis using res by (subst (asm) step) auto
  next
    case lvl0: False
    then have ie: "indent = e" by simp
    have lvl: "\<not> indent < e" "\<not> e < indent" using ie by simp_all
    show ?thesis
    proof (cases "strip content = ''[]''")
      case True
      show ?thesis
      proof (cases "arr_mode = None \<and> result = []")
        case first: True
        then show ?thesis using res lvl True by (subst (asm) step) auto
      next
        case False
        have "parse_block_lim (Suc fr) h e result arr_mode rest = Inr (v, ls')"
          using res lvl True False by (subst (asm) step) auto
        from IH(1) [OF lvl True False this] show ?thesis by simp
      qed
    next
      case nl: False
      show ?thesis
      proof (cases "strip content = ''{}''")
        case True
        show ?thesis
        proof (cases "arr_mode = None \<and> result = []")
          case first: True
          then show ?thesis using res lvl nl True by (subst (asm) step) auto
        next
          case False
          have "parse_block_lim (Suc fr) h e result arr_mode rest = Inr (v, ls')"
            using res lvl nl True False by (subst (asm) step) auto
          from IH(2) [OF lvl nl True False this] show ?thesis by simp
        qed
      next
        case nd: False
        show ?thesis
        proof (cases "startswith content ''- '' \<or> content = ''-''")
          case item: True
          show ?thesis
          proof (cases "content = ''-''")
            case dash: True
            show ?thesis
            proof (cases "rest \<noteq> [] \<and> indent < fst (hd rest)")
              case deeper: True
              show ?thesis
              proof (cases "parse_block_lim fr h (indent + 1) [] None rest")
                case (Inl err)
                then show ?thesis using res lvl nl nd item dash deeper
                  by (subst (asm) step) (auto simp: Let_def)
              next
                case (Inr b)
                obtain it rest' where b: "b = (it, rest')" by (cases b)
                have inner: "parse_block_lim fr h (indent + 1) [] None rest = Inr (it, rest')"
                  using Inr b by simp
                have a: "length rest' \<le> length rest"
                  by (rule IH(3) [OF lvl nl nd item refl dash deeper inner])
                have "parse_block_lim (Suc fr) h e result (Some (?arr @ [it])) rest' = Inr (v, ls')"
                  using res lvl nl nd item dash deeper inner
                  by (subst (asm) step) (auto simp: Let_def)
                from IH(4) [OF lvl nl nd item refl dash deeper Inr b [symmetric] this] a
                show ?thesis by simp
              qed
            next
              case False
              have "parse_block_lim (Suc fr) h e result (Some (?arr @ [Prim PNone])) rest = Inr (v, ls')"
                using res lvl nl nd item dash False by (subst (asm) step) (auto simp: Let_def)
              from IH(5) [OF lvl nl nd item refl dash False this] show ?thesis by simp
            qed
          next
            case ndash: False
            let ?vt = "strip (drop 2 content)"
            show ?thesis
            proof (cases "CHR '','' \<in> set ?vt
                     \<and> \<not> (startswith ?vt [dquote] \<or> startswith ?vt [squote])")
              case True
              have "parse_block_lim (Suc fr) h e result
                      (Some (?arr @ map (\<lambda>p. Prim (parse_primitive_token h p)) (split_csv_like ?vt)))
                      rest = Inr (v, ls')"
                using res lvl nl nd item ndash True by (subst (asm) step) (auto simp: Let_def)
              from IH(6) [OF lvl nl nd item refl ndash refl True this] show ?thesis by simp
            next
              case False
              have "parse_block_lim (Suc fr) h e result
                      (Some (?arr @ [Prim (parse_primitive_token h ?vt)])) rest = Inr (v, ls')"
                using res lvl nl nd item ndash False by (subst (asm) step) (auto simp: Let_def)
              from IH(7) [OF lvl nl nd item refl ndash refl False this] show ?thesis by simp
            qed
          qed
        next
          case nitem: False
          show ?thesis
          proof (cases "find_colon 0 False None content")
            case None
            show ?thesis
            proof (cases "arr_mode = None \<and> result = []")
              case first: True
              then show ?thesis using res lvl nl nd nitem None
                by (subst (asm) step) (auto simp: Let_def)
            next
              case nfirst: False
              show ?thesis
              proof (cases arr_mode)
                case am: None
                have "parse_block_lim (Suc fr) h e result arr_mode rest = Inr (v, ls')"
                  using res lvl nl nd nitem None nfirst am
                  by (subst (asm) step) (auto simp: Let_def)
                from IH(8) [OF lvl nl nd nitem None refl nfirst am this] show ?thesis by simp
              next
                case am: (Some arr)
                have "parse_block_lim (Suc fr) h e result
                        (Some (arr @ [Prim (parse_primitive_token h content)])) rest = Inr (v, ls')"
                  using res lvl nl nd nitem None nfirst am
                  by (subst (asm) step) (auto simp: Let_def)
                from IH(9) [OF lvl nl nd nitem None refl nfirst am this] show ?thesis by simp
              qed
            qed
          next
            case (Some cp)
            let ?kp = "strip (take cp content)"
            let ?vp = "strip (drop (cp + 1) content)"
            show ?thesis
            proof (cases "?vp = []")
              case empty: True
              show ?thesis
              proof (cases "CHR ''['' \<in> set ?kp \<and> CHR '']'' \<in> set ?kp
                       \<and> CHR ''{'' \<in> set ?kp \<and> CHR ''}'' \<in> set ?kp")
                case tbl: True
                obtain rows rest' where tr: "table_rows h (table_keys ?kp) e rest = (rows, rest')"
                  by (cases "table_rows h (table_keys ?kp) e rest")
                have a: "length rest' \<le> length rest"
                  using table_rows_length [of h "table_keys ?kp" e rest] tr by simp
                have "parse_block_lim (Suc fr) h e
                        (dict_set result
                           (if strip (before_bracket ?kp) = [] then ''_table''
                            else strip (before_bracket ?kp))
                           (PyList rows))
                        arr_mode rest' = Inr (v, ls')"
                  using res lvl nl nd nitem Some empty tbl tr
                  by (subst (asm) step) (auto simp: Let_def)
                from IH(10) [OF lvl nl nd nitem Some refl refl empty tbl refl refl tr [symmetric] this] a
                show ?thesis by simp
              next
                case ntbl: False
                obtain real_key is_lh where lh: "list_header ?kp = (real_key, is_lh)"
                  by (cases "list_header ?kp")
                show ?thesis
                proof (cases "parse_block_lim fr h (e + 1) [] None rest")
                  case (Inl err)
                  then show ?thesis using res lvl nl nd nitem Some empty ntbl lh
                    by (subst (asm) step) (auto simp: Let_def)
                next
                  case (Inr b)
                  obtain nested rest' where b: "b = (nested, rest')" by (cases b)
                  have inner: "parse_block_lim fr h (e + 1) [] None rest = Inr (nested, rest')"
                    using Inr b by simp
                  have a: "length rest' \<le> length rest"
                    by (rule IH(11) [OF lvl nl nd nitem Some refl refl empty ntbl lh [symmetric] inner])
                  have "parse_block_lim (Suc fr) h e
                          (dict_set result real_key
                             (if is_lh \<and> nested = PyDict [] then PyList [] else nested))
                          arr_mode rest' = Inr (v, ls')"
                    using res lvl nl nd nitem Some empty ntbl lh inner
                    by (subst (asm) step) (auto simp: Let_def)
                  from IH(12) [OF lvl nl nd nitem Some refl refl empty ntbl lh [symmetric] Inr
                                 b [symmetric] this] a
                  show ?thesis by simp
                qed
              qed
            next
              case nonempty: False
              show ?thesis
              proof (cases "CHR ''['' \<in> set ?kp \<and> CHR '']'' \<in> set ?kp")
                case True
                have "parse_block_lim (Suc fr) h e
                        (dict_set result (strip (before_bracket ?kp))
                           (PyList (map (\<lambda>p. Prim (parse_primitive_token h p))
                                      (filter (\<lambda>p. p \<noteq> []) (split_csv_like ?vp)))))
                        arr_mode rest = Inr (v, ls')"
                  using res lvl nl nd nitem Some nonempty True
                  by (subst (asm) step) (auto simp: Let_def)
                from IH(13) [OF lvl nl nd nitem Some refl refl nonempty True this]
                show ?thesis by simp
              next
                case False
                have "parse_block_lim (Suc fr) h e
                        (dict_set result ?kp (Prim (parse_primitive_token h ?vp)))
                        arr_mode rest = Inr (v, ls')"
                  using res lvl nl nd nitem Some nonempty False
                  by (subst (asm) step) (auto simp: Let_def)
                from IH(14) [OF lvl nl nd nitem Some refl refl nonempty False this]
                show ?thesis by simp
              qed
            qed
          qed
        qed
      qed
    qed
  qed
qed

lemma parse_block_lim_shorter:
  "parse_block_lim fr h e result arr_mode ls = Inr x \<Longrightarrow> (v, ls') = x \<Longrightarrow>
   parse_block_lim_dom (fr, h, e, result, arr_mode, ls) \<Longrightarrow> length ls' < Suc (length ls)"
  using parse_block_lim_length [of fr h e result arr_mode ls v ls'] by simp

termination parse_block_lim
  by (relation "measure (\<lambda>(fr, h, e, result, arr_mode, ls). length ls)")
     (auto intro: parse_block_lim_shorter table_rows_shorter)

fun loads_lim :: "nat \<Rightarrow> 'f host \<Rightarrow> string \<Rightarrow> error + 'f pyobj" where
  "loads_lim 0 h toon_str = Inl RecursionError"
| "loads_lim (Suc frames) h toon_str =
     (case parse_block_lim frames h 0 [] None (preprocess toon_str) of
        Inl err \<Rightarrow> Inl err
      | Inr (parsed, rest) \<Rightarrow> Inr parsed)"

subsection \<open>Agreement with the functions without a stack\<close>

text \<open>
  Where the functions with a stack return a value, it is the value of \<open>dumps\<close>,
  \<open>parse_block\<close> and \<open>loads\<close>: the stack adds the error and changes nothing else.
\<close>

lemma collect_map_agrees:
  assumes "collect (map f xs) = Inr ys"
    and "\<And>x y. x \<in> set xs \<Longrightarrow> f x = Inr y \<Longrightarrow> y = g x"
  shows "ys = map g xs"
  using assms
proof (induction xs arbitrary: ys)
  case Nil
  then show ?case by simp
next
  case (Cons x xs)
  show ?case
  proof (cases "f x")
    case (Inl err)
    with Cons.prems(1) show ?thesis by simp
  next
    case (Inr y)
    show ?thesis
    proof (cases "collect (map f xs)")
      case (Inl err)
      with Inr Cons.prems(1) show ?thesis by simp
    next
      case r: (Inr zs)
      have "zs = map g xs" using r Cons.prems(2) by (intro Cons.IH) simp_all
      moreover have "y = g x" using Inr Cons.prems(2) by simp
      moreover have "ys = y # zs" using Cons.prems(1) Inr r by simp
      ultimately show ?thesis by simp
    qed
  qed
qed

lemma dumps_lim_agrees:
  "dumps_lim fr h name i x = Inr s \<Longrightarrow> s = dumps h name i x"
proof (induction fr arbitrary: name i x s)
  case 0
  then show ?case by simp
next
  case (Suc fr)
  show ?case
  proof (cases x)
    case (Prim p)
    with Suc.prems show ?thesis by (auto simp: Let_def split: if_splits)
  next
    case (PyDict obj)
    show ?thesis
    proof (cases "obj = []")
      case True
      with Suc.prems PyDict show ?thesis by (auto simp: Let_def split: if_splits)
    next
      case False
      define child_pad where "child_pad = (if truthy name then pad_of (i + 1) else pad_of i)"
      define lines0 where "lines0 = (if truthy name then [pad_of i @ name_of name @ '':''] else [])"
      define F where "F = (\<lambda>(k, v).
              let key = escape_header_key k
              in (case v of
                    Prim p \<Rightarrow> Inr [child_pad @ key @ '': '' @ to_toon_primitive h p]
                  | _ \<Rightarrow>
                      (case dumps_lim fr h None (i + 1) v of
                         Inl err \<Rightarrow> Inl err
                       | Inr s \<Rightarrow> Inr [child_pad @ key @ '':'', rstrip_char LF s])))"
      define G where "G = (\<lambda>(k, v).
              let key = escape_header_key k
              in (case v of
                    Prim p \<Rightarrow> [child_pad @ key @ '': '' @ to_toon_primitive h p]
                  | _ \<Rightarrow> [child_pad @ key @ '':'',
                          rstrip_char LF (dumps h None (i + 1) v)]))"
      have l: "dumps_lim (Suc fr) h name i (PyDict obj)
               = (case collect (map F obj) of
                    Inl err \<Rightarrow> Inl err
                  | Inr ls \<Rightarrow> Inr (join_lines (lines0 @ concat ls)))"
        using False unfolding F_def child_pad_def lines0_def by (simp add: Let_def)
      have r: "dumps h name i (PyDict obj) = join_lines (lines0 @ concat (map G obj))"
        using False unfolding G_def child_pad_def lines0_def by (simp add: Let_def)
      from Suc.prems obtain ls where ls: "collect (map F obj) = Inr ls"
        and s: "s = join_lines (lines0 @ concat ls)"
        unfolding PyDict l by (cases "collect (map F obj)") simp_all
      have "ls = map G obj"
      proof (rule collect_map_agrees [OF ls])
        fix kv y assume "kv \<in> set obj" and fy: "F kv = Inr y"
        obtain k v where kv: "kv = (k, v)" by (cases kv)
        show "y = G kv"
        proof (cases v)
          case (Prim p)
          with fy show ?thesis by (simp add: kv F_def G_def)
        next
          case d: (PyDict kvs)
          from fy obtain t where t: "dumps_lim fr h None (i + 1) v = Inr t"
            by (cases "dumps_lim fr h None (i + 1) v") (simp_all add: kv F_def d)
          from Suc.IH [OF t] t fy show ?thesis by (simp add: kv F_def G_def d)
        next
          case d: (PyList vs)
          from fy obtain t where t: "dumps_lim fr h None (i + 1) v = Inr t"
            by (cases "dumps_lim fr h None (i + 1) v") (simp_all add: kv F_def d)
          from Suc.IH [OF t] t fy show ?thesis by (simp add: kv F_def G_def d)
        qed
      qed
      with s r show ?thesis by (simp add: PyDict)
    qed
  next
    case (PyList lst)
    show ?thesis
    proof (cases "lst = []")
      case True
      with Suc.prems PyList show ?thesis by (auto simp: Let_def split: if_splits)
    next
      case ne: False
      obtain uniform keys_opt where u: "all_dicts_uniform lst = (uniform, keys_opt)"
        by (cases "all_dicts_uniform lst")
      define ks where "ks = (case keys_opt of None \<Rightarrow> [] | Some ks \<Rightarrow> ks)"
      show ?thesis
      proof (cases "uniform \<and> ks \<noteq> [] \<and> list_all (\<lambda>d. list_all is_primitive (dict_values d)) lst")
        case True
        with Suc.prems PyList ne u show ?thesis
          by (auto simp: Let_def ks_def split: if_splits)
      next
        case nt: False
        show ?thesis
        proof (cases "list_all is_primitive lst")
          case True
          with Suc.prems PyList ne u nt show ?thesis
            by (auto simp: Let_def ks_def split: if_splits)
        next
          case np: False
          define item_indent_str where
            "item_indent_str = (if truthy name then pad_of i @ INDENT_STR else pad_of i)"
          define nested_indent where "nested_indent = (if truthy name then i + 2 else i + 1)"
          define lines0 where
            "lines0 = (if truthy name
                       then [pad_of i @ name_of name @ ''['' @ str_nat (length lst) @ '']:'']
                       else [])"
          define F where "F = (\<lambda>item.
                          (case item of
                             Prim p \<Rightarrow> Inr [item_indent_str @ ''- '' @ to_toon_primitive h p]
                           | _ \<Rightarrow>
                               (case dumps_lim fr h None nested_indent item of
                                  Inl err \<Rightarrow> Inl err
                                | Inr s \<Rightarrow> Inr [item_indent_str @ ''-'', rstrip_char LF s])))"
          define G where "G = (\<lambda>item.
                          (case item of
                             Prim p \<Rightarrow> [item_indent_str @ ''- '' @ to_toon_primitive h p]
                           | _ \<Rightarrow> [item_indent_str @ ''-'',
                                   rstrip_char LF (dumps h None nested_indent item)]))"
          have l: "dumps_lim (Suc fr) h name i (PyList lst)
                   = (case collect (map F lst) of
                        Inl err \<Rightarrow> Inl err
                      | Inr ls \<Rightarrow> Inr (join [LF] (lines0 @ concat ls) @ [LF]))"
            using ne u nt np
            unfolding F_def item_indent_str_def nested_indent_def lines0_def ks_def
            by (auto simp: Let_def)
          have r: "dumps h name i (PyList lst) = join [LF] (lines0 @ concat (map G lst)) @ [LF]"
            using ne u nt np
            unfolding G_def item_indent_str_def nested_indent_def lines0_def ks_def
            by (auto simp: Let_def)
          from Suc.prems obtain ls where ls: "collect (map F lst) = Inr ls"
            and s: "s = join [LF] (lines0 @ concat ls) @ [LF]"
            unfolding PyList l by (cases "collect (map F lst)") simp_all
          have "ls = map G lst"
          proof (rule collect_map_agrees [OF ls])
            fix v y assume "v \<in> set lst" and fy: "F v = Inr y"
            show "y = G v"
            proof (cases v)
              case (Prim p)
              with fy show ?thesis by (simp add: F_def G_def)
            next
              case d: (PyDict kvs)
              from fy obtain t where t: "dumps_lim fr h None nested_indent v = Inr t"
                by (cases "dumps_lim fr h None nested_indent v") (simp_all add: F_def d)
              from Suc.IH [OF t] t fy show ?thesis by (simp add: F_def G_def d)
            next
              case d: (PyList vs)
              from fy obtain t where t: "dumps_lim fr h None nested_indent v = Inr t"
                by (cases "dumps_lim fr h None nested_indent v") (simp_all add: F_def d)
              from Suc.IH [OF t] t fy show ?thesis by (simp add: F_def G_def d)
            qed
          qed
          with s r show ?thesis by (simp add: PyList)
        qed
      qed
    qed
  qed
qed

lemma parse_block_lim_agrees:
  "parse_block_lim fr h e result arr_mode ls = Inr x \<Longrightarrow> x = parse_block h e result arr_mode ls"
proof (induction fr h e result arr_mode ls arbitrary: x rule: parse_block_lim.induct)
  case (1 h e result arr_mode ls)
  then show ?case by simp
next
  case (2 fr h e result arr_mode)
  then show ?case by simp
next
  case (3 fr h e result arr_mode indent content rest)
  note IH = 3(1-14)
  note res = 3(15)
  note step = parse_block_lim.simps(3)
  note pstep = parse_block.simps(2)
  let ?arr = "case arr_mode of None \<Rightarrow> [] | Some a \<Rightarrow> a"
  show ?case
  proof (cases "indent < e \<or> e < indent")
    case True
    then show ?thesis using res by (subst pstep, subst (asm) step) auto
  next
    case lvl0: False
    then have ie: "indent = e" by simp
    have lvl: "\<not> indent < e" "\<not> e < indent" using ie by simp_all
    show ?thesis
    proof (cases "strip content = ''[]''")
      case True
      show ?thesis
      proof (cases "arr_mode = None \<and> result = []")
        case first: True
        then show ?thesis using res lvl True by (subst pstep, subst (asm) step) auto
      next
        case False
        have "parse_block_lim (Suc fr) h e result arr_mode rest = Inr x"
          using res lvl True False by (subst (asm) step) auto
        from IH(1) [OF lvl True False this] show ?thesis
          using lvl True False by (subst pstep) auto
      qed
    next
      case nl: False
      show ?thesis
      proof (cases "strip content = ''{}''")
        case True
        show ?thesis
        proof (cases "arr_mode = None \<and> result = []")
          case first: True
          then show ?thesis using res lvl nl True by (subst pstep, subst (asm) step) auto
        next
          case False
          have "parse_block_lim (Suc fr) h e result arr_mode rest = Inr x"
            using res lvl nl True False by (subst (asm) step) auto
          from IH(2) [OF lvl nl True False this] show ?thesis
            using lvl nl True False by (subst pstep) auto
        qed
      next
        case nd: False
        show ?thesis
        proof (cases "startswith content ''- '' \<or> content = ''-''")
          case item: True
          show ?thesis
          proof (cases "content = ''-''")
            case dash: True
            show ?thesis
            proof (cases "rest \<noteq> [] \<and> indent < fst (hd rest)")
              case deeper: True
              show ?thesis
              proof (cases "parse_block_lim fr h (indent + 1) [] None rest")
                case (Inl err)
                then show ?thesis using res lvl nl nd item dash deeper
                  by (subst (asm) step) (auto simp: Let_def)
              next
                case (Inr b)
                obtain it rest' where b: "b = (it, rest')" by (cases b)
                have inner: "parse_block_lim fr h (indent + 1) [] None rest = Inr (it, rest')"
                  using Inr b by simp
                have a: "parse_block h (indent + 1) [] None rest = (it, rest')"
                  using IH(3) [OF lvl nl nd item refl dash deeper inner] by simp
                have "parse_block_lim (Suc fr) h e result (Some (?arr @ [it])) rest' = Inr x"
                  using res lvl nl nd item dash deeper inner
                  by (subst (asm) step) (auto simp: Let_def)
                from IH(4) [OF lvl nl nd item refl dash deeper Inr b [symmetric] this]
                show ?thesis using lvl nl nd item dash deeper a
                  by (subst pstep) (auto simp: Let_def)
              qed
            next
              case False
              have "parse_block_lim (Suc fr) h e result (Some (?arr @ [Prim PNone])) rest = Inr x"
                using res lvl nl nd item dash False by (subst (asm) step) (auto simp: Let_def)
              from IH(5) [OF lvl nl nd item refl dash False this] show ?thesis
                using lvl nl nd item dash False by (subst pstep) (auto simp: Let_def)
            qed
          next
            case ndash: False
            let ?vt = "strip (drop 2 content)"
            show ?thesis
            proof (cases "CHR '','' \<in> set ?vt
                     \<and> \<not> (startswith ?vt [dquote] \<or> startswith ?vt [squote])")
              case True
              have "parse_block_lim (Suc fr) h e result
                      (Some (?arr @ map (\<lambda>p. Prim (parse_primitive_token h p)) (split_csv_like ?vt)))
                      rest = Inr x"
                using res lvl nl nd item ndash True by (subst (asm) step) (auto simp: Let_def)
              from IH(6) [OF lvl nl nd item refl ndash refl True this] show ?thesis
                using lvl nl nd item ndash True by (subst pstep) (auto simp: Let_def)
            next
              case False
              have "parse_block_lim (Suc fr) h e result
                      (Some (?arr @ [Prim (parse_primitive_token h ?vt)])) rest = Inr x"
                using res lvl nl nd item ndash False by (subst (asm) step) (auto simp: Let_def)
              from IH(7) [OF lvl nl nd item refl ndash refl False this] show ?thesis
                using lvl nl nd item ndash False by (subst pstep) (auto simp: Let_def)
            qed
          qed
        next
          case nitem: False
          show ?thesis
          proof (cases "find_colon 0 False None content")
            case None
            show ?thesis
            proof (cases "arr_mode = None \<and> result = []")
              case first: True
              then show ?thesis using res lvl nl nd nitem None
                by (subst pstep, subst (asm) step) (auto simp: Let_def)
            next
              case nfirst: False
              show ?thesis
              proof (cases arr_mode)
                case am: None
                have "parse_block_lim (Suc fr) h e result arr_mode rest = Inr x"
                  using res lvl nl nd nitem None nfirst am
                  by (subst (asm) step) (auto simp: Let_def)
                from IH(8) [OF lvl nl nd nitem None refl nfirst am this] show ?thesis
                  using lvl nl nd nitem None nfirst am by (subst pstep) (auto simp: Let_def)
              next
                case am: (Some arr)
                have "parse_block_lim (Suc fr) h e result
                        (Some (arr @ [Prim (parse_primitive_token h content)])) rest = Inr x"
                  using res lvl nl nd nitem None nfirst am
                  by (subst (asm) step) (auto simp: Let_def)
                from IH(9) [OF lvl nl nd nitem None refl nfirst am this] show ?thesis
                  using lvl nl nd nitem None nfirst am by (subst pstep) (auto simp: Let_def)
              qed
            qed
          next
            case (Some cp)
            let ?kp = "strip (take cp content)"
            let ?vp = "strip (drop (cp + 1) content)"
            show ?thesis
            proof (cases "?vp = []")
              case empty: True
              show ?thesis
              proof (cases "CHR ''['' \<in> set ?kp \<and> CHR '']'' \<in> set ?kp
                       \<and> CHR ''{'' \<in> set ?kp \<and> CHR ''}'' \<in> set ?kp")
                case tbl: True
                obtain rows rest' where tr: "table_rows h (table_keys ?kp) e rest = (rows, rest')"
                  by (cases "table_rows h (table_keys ?kp) e rest")
                have "parse_block_lim (Suc fr) h e
                        (dict_set result
                           (if strip (before_bracket ?kp) = [] then ''_table''
                            else strip (before_bracket ?kp))
                           (PyList rows))
                        arr_mode rest' = Inr x"
                  using res lvl nl nd nitem Some empty tbl tr
                  by (subst (asm) step) (auto simp: Let_def)
                from IH(10) [OF lvl nl nd nitem Some refl refl empty tbl refl refl tr [symmetric] this]
                show ?thesis using lvl nl nd nitem Some empty tbl tr
                  by (subst pstep) (auto simp: Let_def)
              next
                case ntbl: False
                obtain real_key is_lh where lh: "list_header ?kp = (real_key, is_lh)"
                  by (cases "list_header ?kp")
                show ?thesis
                proof (cases "parse_block_lim fr h (e + 1) [] None rest")
                  case (Inl err)
                  then show ?thesis using res lvl nl nd nitem Some empty ntbl lh
                    by (subst (asm) step) (auto simp: Let_def)
                next
                  case (Inr b)
                  obtain nested rest' where b: "b = (nested, rest')" by (cases b)
                  have inner: "parse_block_lim fr h (e + 1) [] None rest = Inr (nested, rest')"
                    using Inr b by simp
                  have a: "parse_block h (e + 1) [] None rest = (nested, rest')"
                    using IH(11) [OF lvl nl nd nitem Some refl refl empty ntbl lh [symmetric] inner]
                    by simp
                  have "parse_block_lim (Suc fr) h e
                          (dict_set result real_key
                             (if is_lh \<and> nested = PyDict [] then PyList [] else nested))
                          arr_mode rest' = Inr x"
                    using res lvl nl nd nitem Some empty ntbl lh inner
                    by (subst (asm) step) (auto simp: Let_def)
                  from IH(12) [OF lvl nl nd nitem Some refl refl empty ntbl lh [symmetric] Inr
                                 b [symmetric] this]
                  show ?thesis using lvl nl nd nitem Some empty ntbl lh a
                    by (subst pstep) (auto simp: Let_def)
                qed
              qed
            next
              case nonempty: False
              show ?thesis
              proof (cases "CHR ''['' \<in> set ?kp \<and> CHR '']'' \<in> set ?kp")
                case True
                have "parse_block_lim (Suc fr) h e
                        (dict_set result (strip (before_bracket ?kp))
                           (PyList (map (\<lambda>p. Prim (parse_primitive_token h p))
                                      (filter (\<lambda>p. p \<noteq> []) (split_csv_like ?vp)))))
                        arr_mode rest = Inr x"
                  using res lvl nl nd nitem Some nonempty True
                  by (subst (asm) step) (auto simp: Let_def)
                from IH(13) [OF lvl nl nd nitem Some refl refl nonempty True this]
                show ?thesis using lvl nl nd nitem Some nonempty True
                  by (subst pstep) (auto simp: Let_def)
              next
                case False
                have "parse_block_lim (Suc fr) h e
                        (dict_set result ?kp (Prim (parse_primitive_token h ?vp)))
                        arr_mode rest = Inr x"
                  using res lvl nl nd nitem Some nonempty False
                  by (subst (asm) step) (auto simp: Let_def)
                from IH(14) [OF lvl nl nd nitem Some refl refl nonempty False this]
                show ?thesis using lvl nl nd nitem Some nonempty False
                  by (subst pstep) (auto simp: Let_def)
              qed
            qed
          qed
        qed
      qed
    qed
  qed
qed

lemma loads_lim_agrees: "loads_lim fr h s = Inr x \<Longrightarrow> x = loads h s"
proof (cases fr)
  case 0
  assume "loads_lim fr h s = Inr x"
  with 0 show ?thesis by simp
next
  case (Suc fr')
  assume "loads_lim fr h s = Inr x"
  then obtain rest where "parse_block_lim fr' h 0 [] None (preprocess s) = Inr (x, rest)"
    unfolding Suc
    by (cases "parse_block_lim fr' h 0 [] None (preprocess s)") (auto split: prod.splits)
  from parse_block_lim_agrees [OF this, symmetric] show ?thesis by (simp add: loads_def)
qed

subsection \<open>Chains of mappings\<close>

text \<open>
  \<open>deep n\<close> is the empty mapping under \<open>n\<close> nested mappings with the key \<open>lvl\<close>.
  Serializing it takes \<open>n + 1\<close> frames of \<open>dumps\<close>, and reading its text takes the
  frame of \<open>loads\<close> and \<open>n + 1\<close> frames of \<open>parse_block\<close>.
\<close>

definition deep :: "nat \<Rightarrow> 'f pyobj" where
  "deep n = nest (replicate n ''lvl'') (PyDict [])"

lemma plain_key_lvl: "list_all plain_key (replicate n ''lvl'')"
proof -
  have "plain_key ''lvl''" by (simp add: plain_key_def text_eval)
  then show ?thesis by (simp add: list_all_iff)
qed

lemma nest_dict: "\<exists>kvs. nest ks (PyDict []) = PyDict kvs"
  by (cases ks) simp_all

lemma dumps_lim_nest_exhausted:
  fixes h :: "'f host"
  shows "fr \<le> length ks \<Longrightarrow> dumps_lim fr h name i (nest ks (PyDict [])) = Inl RecursionError"
proof (induction ks arbitrary: fr name i)
  case Nil
  then show ?case by simp
next
  case (Cons k ks)
  show ?case
  proof (cases fr)
    case 0
    then show ?thesis by simp
  next
    case (Suc fr')
    with Cons.prems have "fr' \<le> length ks" by simp
    then have inner: "dumps_lim fr' h None (i + 1) (nest ks (PyDict [])) = Inl RecursionError"
      by (rule Cons.IH)
    obtain kvs where kvs: "nest ks (PyDict []) = (PyDict kvs :: 'f pyobj)" using nest_dict by blast
    show ?thesis
      unfolding Suc nest.simps using inner
      by (simp add: kvs Let_def)
  qed
qed

lemma dumps_lim_nest:
  fixes h :: "'f host"
  shows "length ks < fr \<Longrightarrow>
   dumps_lim fr h name i (nest ks (PyDict [])) = Inr (dumps h name i (nest ks (PyDict [])))"
proof (induction ks arbitrary: fr name i)
  case Nil
  then obtain fr' where "fr = Suc fr'" by (cases fr) simp_all
  then show ?case by (simp add: Let_def)
next
  case (Cons k ks)
  then obtain fr' where fr: "fr = Suc fr'" by (cases fr) simp_all
  with Cons.prems have "length ks < fr'" by simp
  then have inner: "dumps_lim fr' h None (i + 1) (nest ks (PyDict []))
                    = Inr (dumps h None (i + 1) (nest ks (PyDict [])))"
    by (rule Cons.IH)
  obtain kvs where kvs: "nest ks (PyDict []) = (PyDict kvs :: 'f pyobj)" using nest_dict by blast
  show ?case
    unfolding fr nest.simps using inner
    by (simp add: kvs Let_def)
qed

lemma parse_block_lim_key_line:
  assumes "isidentifier k"
  shows "parse_block_lim (Suc fr) h d result arr_mode ((d, k @ '':'') # rest) =
         (case parse_block_lim fr h (d + 1) [] None rest of
            Inl err \<Rightarrow> Inl err
          | Inr (nested, rest') \<Rightarrow>
              parse_block_lim (Suc fr) h d (dict_set result k nested) arr_mode rest')"
proof -
  note f = key_line_facts [OF assms]
  have lh: "list_header k = (k, False)" using f(7) by (simp add: list_header_def)
  show ?thesis
  proof (cases "parse_block_lim fr h (d + 1) [] None rest")
    case (Inl err)
    then show ?thesis by (simp add: f(1-6) strip_identifier [OF assms] strip_Nil f(7) lh)
  next
    case (Inr b)
    then show ?thesis
      by (cases b) (simp add: f(1-6) strip_identifier [OF assms] strip_Nil f(7) lh)
  qed
qed

lemma parse_block_lim_nest_exhausted:
  assumes "list_all isidentifier ks" and "fr \<le> length ks"
  shows "parse_block_lim fr h d result arr_mode (nest_lines d ks marker) = Inl RecursionError"
  using assms
proof (induction ks arbitrary: fr d result arr_mode)
  case Nil
  then show ?case by simp
next
  case (Cons k ks)
  from Cons.prems(1) have k: "isidentifier k" and ks: "list_all isidentifier ks" by simp_all
  show ?case
  proof (cases fr)
    case 0
    then show ?thesis by simp
  next
    case (Suc fr')
    with Cons.prems(2) have "fr' \<le> length ks" by simp
    from Cons.IH [OF ks this]
    have inner: "parse_block_lim fr' h (d + 1) [] None (nest_lines (Suc d) ks marker)
                 = Inl RecursionError"
      by simp
    show ?thesis
      unfolding Suc nest_lines.simps parse_block_lim_key_line [OF k] inner by simp
  qed
qed

lemma parse_block_lim_nest:
  assumes "list_all plain_key ks" and "length ks < fr"
  shows "parse_block_lim fr h d [] None (nest_lines d ks ''{}'') = Inr (nest ks (PyDict []), [])"
  using assms
proof (induction ks arbitrary: fr d)
  case Nil
  then obtain fr' where "fr = Suc fr'" by (cases fr) simp_all
  then show ?case by (simp add: text_eval)
next
  case (Cons k ks)
  from Cons.prems(1) have pk: "plain_key k" and ks: "list_all plain_key ks" by simp_all
  from pk have k: "isidentifier k" "k \<noteq> ''_table''" by (simp_all add: plain_key_def)
  from Cons.prems(2) obtain fr' where fr: "fr = Suc fr'" by (cases fr) simp_all
  with Cons.prems(2) have "length ks < fr'" by simp
  from Cons.IH [OF ks this]
  have inner: "parse_block_lim fr' h (d + 1) [] None (nest_lines (Suc d) ks ''{}'')
               = Inr (nest ks (PyDict []), [])"
    by simp
  have "parse_block_lim (Suc fr') h d [] None (nest_lines d (k # ks) ''{}'')
        = parse_block_lim (Suc fr') h d [(k, nest ks (PyDict []))] None []"
    unfolding nest_lines.simps parse_block_lim_key_line [OF k(1)] inner by simp
  also have "\<dots> = Inr (PyDict [(k, nest ks (PyDict []))], [])"
    using k(2) by (simp add: finish_def)
  finally show ?case unfolding fr by (simp only: nest.simps)
qed

lemma preprocess_dumps_nest:
  assumes "list_all plain_key ks"
  shows "preprocess (dumps h None 0 (nest ks (PyDict []))) = nest_lines 0 ks ''{}''"
proof -
  note ids = plain_keys_identifiers [OF assms]
  have d: "dumps h None 0 (nest ks (PyDict [])) = unlines (map render (nest_lines 0 ks ''{}''))"
    by (rule dumps_nest [OF ids]) (simp_all add: truthy_def is_primitive_def)
  show ?thesis
    unfolding d by (rule preprocess_unlines [OF body_ok_nest_lines [OF ids body_ok_markers(1)]])
qed

lemma dumps_lim_deep_exhausted:
  "limit \<le> n \<Longrightarrow> dumps_lim limit h None 0 (deep n) = Inl RecursionError"
  unfolding deep_def by (rule dumps_lim_nest_exhausted) simp

lemma loads_lim_deep_exhausted:
  assumes "limit \<le> n"
  shows "loads_lim limit h (dumps h None 0 (deep n)) = Inl RecursionError"
proof (cases limit)
  case 0
  then show ?thesis by simp
next
  case (Suc fr)
  have ids: "list_all isidentifier (replicate n ''lvl'')"
    by (rule plain_keys_identifiers [OF plain_key_lvl])
  have "parse_block_lim fr h 0 [] None (nest_lines 0 (replicate n ''lvl'') ''{}'')
        = Inl RecursionError"
    using assms Suc by (intro parse_block_lim_nest_exhausted [OF ids]) simp
  then show ?thesis
    unfolding Suc loads_lim.simps deep_def preprocess_dumps_nest [OF plain_key_lvl] by simp
qed

lemma dumps_lim_deep: "n < limit \<Longrightarrow> dumps_lim limit h None 0 (deep n) = Inr (dumps h None 0 (deep n))"
  unfolding deep_def by (rule dumps_lim_nest) simp

lemma loads_lim_deep:
  assumes "Suc n < limit"
  shows "loads_lim limit h (dumps h None 0 (deep n)) = Inr (deep n)"
proof -
  from assms obtain fr where fr: "limit = Suc fr" by (cases limit) simp_all
  have "parse_block_lim fr h 0 [] None (nest_lines 0 (replicate n ''lvl'') ''{}'')
        = Inr (nest (replicate n ''lvl'') (PyDict []), [])"
    using assms fr by (intro parse_block_lim_nest [OF plain_key_lvl]) simp
  then show ?thesis
    unfolding fr loads_lim.simps deep_def preprocess_dumps_nest [OF plain_key_lvl] by simp
qed

text \<open>
  Claim C8, as amended. Neither the serializer nor the parser has a maximum nesting
  depth, configurable or fixed, or an error of its own for exceeding one: both recurse
  once per nesting level, and the only bound is the call stack of the interpreter.
  When the interpreter grants at most \<open>n\<close> frames, serializing the mapping nested
  \<open>n\<close> levels deep ends in the interpreter's \<open>RecursionError\<close>, and so does parsing
  its text; and for every depth there is a number of frames with which the same value
  is serialized and its text is parsed back to it.
\<close>

theorem C8_stack_is_the_only_bound:
  "(limit \<le> n \<longrightarrow>
      dumps_lim limit h None 0 (deep n) = Inl RecursionError
      \<and> loads_lim limit h (dumps h None 0 (deep n)) = Inl RecursionError)
   \<and> (\<exists>frames. dumps_lim frames h None 0 (deep n) = Inr (dumps h None 0 (deep n))
               \<and> loads_lim frames h (dumps h None 0 (deep n)) = Inr (deep n))"
proof (intro conjI impI)
  assume l: "limit \<le> n"
  show "dumps_lim limit h None 0 (deep n) = Inl RecursionError"
    using l by (rule dumps_lim_deep_exhausted)
  show "loads_lim limit h (dumps h None 0 (deep n)) = Inl RecursionError"
    using l by (rule loads_lim_deep_exhausted)
next
  have a: "n < Suc (Suc n)" and b: "Suc n < Suc (Suc n)" by simp_all
  have "dumps_lim (Suc (Suc n)) h None 0 (deep n) = Inr (dumps h None 0 (deep n))
        \<and> loads_lim (Suc (Suc n)) h (dumps h None 0 (deep n)) = Inr (deep n)"
    by (simp only: dumps_lim_deep [OF a] loads_lim_deep [OF b] simp_thms)
  then show "\<exists>frames. dumps_lim frames h None 0 (deep n) = Inr (dumps h None 0 (deep n))
               \<and> loads_lim frames h (dumps h None 0 (deep n)) = Inr (deep n)" ..
qed

theorem C8_stack_is_the_only_bound_witness:
  "dumps_lim 3 plain_host None 0 (deep 3) = Inl RecursionError
   \<and> loads_lim 3 plain_host (dumps plain_host None 0 (deep 3)) = Inl RecursionError"
  using C8_stack_is_the_only_bound [of 3 3 plain_host] by simp

text \<open>
  The claim as first stated, at 1000 frames (the default recursion limit of CPython)
  and the mapping nested 1000 levels deep: serializer and parser end in
  \<open>RecursionError\<close>, the exhausted stack, and not in a depth error of their own. With
  2000 frames the same mapping is serialized and parsed back: no maximum depth stands
  in the way.
\<close>

theorem C8_stack_exhaustion_counterexample:
  "dumps_lim 1000 plain_host None 0 (deep 1000) = Inl RecursionError
   \<and> loads_lim 1000 plain_host (dumps plain_host None 0 (deep 1000)) = Inl RecursionError
   \<and> dumps_lim 2000 plain_host None 0 (deep 1000) = Inr (dumps plain_host None 0 (deep 1000))
   \<and> loads_lim 2000 plain_host (dumps plain_host None 0 (deep 1000)) = Inr (deep 1000)"
proof -
  have a: "(1000 :: nat) \<le> 1000" and b: "(1000 :: nat) < 2000" and c: "Suc 1000 < 2000"
    by simp_all
  show ?thesis
    by (simp only: dumps_lim_deep_exhausted [OF a] loads_lim_deep_exhausted [OF a]
          dumps_lim_deep [OF b] loads_lim_deep [OF c] simp_thms)
qed

end
